theory Spec2Isabelle
  imports Main "HOL-Library.AList"
begin

text \<open>
  A model of \<^verbatim>\<open>createAsyncThunk\<close> of Redux Toolkit 1.9.0
  (\<^verbatim>\<open>packages/toolkit/src/createAsyncThunk.ts\<close>): the three action creators,
  \<^verbatim>\<open>miniSerializeError\<close>, \<^verbatim>\<open>unwrapResult\<close>, and one invocation of the thunk as a
  state machine. The async function of the source runs in pieces: from the call to its
  first \<^verbatim>\<open>await\<close>, and from there in microtasks. The state records where the function
  stands, the promises it waits for and the queue of promise reactions; the events are
  what the outside does to it: calls of \<open>abort\<close>, the settling of the promises returned
  by the two callbacks, and the event loop running the next microtask. Every interleaving
  of these is a run, so that a property of all runs holds whenever \<open>abort\<close> is called
  and whenever the operation completes.
\<close>

section \<open>JavaScript values\<close>

text \<open>
  The values that flow through \<^verbatim>\<open>createAsyncThunk.ts\<close>. Numbers are the integers
  that JavaScript prints as decimal numerals, those below \<open>10^21\<close> in magnitude (no
  fractions, no NaN, no exponent notation), objects are association lists read with \<open>map_of\<close> (own
  properties and inherited ones alike), and the two marker classes of the source,
  \<^verbatim>\<open>RejectWithValue\<close> and \<^verbatim>\<open>FulfillWithMeta\<close>, are constructors of their
  own, so that \<^verbatim>\<open>instanceof\<close> is a pattern match. Functions and promises are not
  values of this type: what a callback returns is described by \<open>ret\<close> below.
\<close>

datatype jsval =
    JUndefined
  | JNull
  | JBool bool
  | JNum int
  | JStr string
  | JObj "(string \<times> jsval) list"
  | RejectWithValue jsval jsval
  | FulfillWithMeta jsval jsval

text \<open>\<^verbatim>\<open>!!v\<close>: the falsy values are undefined, null, false, 0 and the empty string.\<close>

fun truthy :: "jsval \<Rightarrow> bool" where
  "truthy JUndefined = False"
| "truthy JNull = False"
| "truthy (JBool b) = b"
| "truthy (JNum n) = (n \<noteq> 0)"
| "truthy (JStr s) = (s \<noteq> [])"
| "truthy (JObj kvs) = True"
| "truthy (RejectWithValue p m) = True"
| "truthy (FulfillWithMeta p m) = True"

text \<open>\<^verbatim>\<open>typeof v === 'object' && v !== null\<close>\<close>

fun is_object :: "jsval \<Rightarrow> bool" where
  "is_object (JObj kvs) = True"
| "is_object (RejectWithValue p m) = True"
| "is_object (FulfillWithMeta p m) = True"
| "is_object v = False"

text \<open>
  The properties of a value, as far as the source reads them: those of an object, and
  the two fields of the marker classes. \<^verbatim>\<open>v[k]\<close> and \<^verbatim>\<open>v?.[k]\<close> are \<open>get v k\<close>:
  a missing property, and every property read from a primitive, is undefined.
\<close>

fun props :: "jsval \<Rightarrow> string \<Rightarrow> jsval option" where
  "props (JObj kvs) = map_of kvs"
| "props (RejectWithValue p m) = map_of [(''payload'', p), (''meta'', m)]"
| "props (FulfillWithMeta p m) = map_of [(''payload'', p), (''meta'', m)]"
| "props v = Map.empty"

definition get :: "jsval \<Rightarrow> string \<Rightarrow> jsval" where
  "get v k = (case props v k of Some x \<Rightarrow> x | None \<Rightarrow> JUndefined)"

text \<open>Decimal digits of a natural number, for \<^verbatim>\<open>String(n)\<close> and for index keys.\<close>

fun decimal :: "nat \<Rightarrow> string" where
  "decimal n =
     (if n < 10 then [char_of (48 + n)]
      else decimal (n div 10) @ [char_of (48 + n mod 10)])"

declare decimal.simps [simp del]

text \<open>
  \<^verbatim>\<open>String(v)\<close>. The source applies it to non-objects only; for the numbers of this
  model it is the decimal numeral. (From \<open>10^21\<close> on JavaScript prints an exponent; such
  numbers are not values of the model.)
\<close>

fun js_String :: "jsval \<Rightarrow> string" where
  "js_String JUndefined = ''undefined''"
| "js_String JNull = ''null''"
| "js_String (JBool b) = (if b then ''true'' else ''false'')"
| "js_String (JNum n) = (if n < 0 then ''-'' @ decimal (nat (- n)) else decimal (nat n))"
| "js_String (JStr s) = s"
| "js_String v = ''[object Object]''"

text \<open>
  \<^verbatim>\<open>{...v}\<close>: the own enumerable properties of \<open>v\<close>. A string spreads into its
  characters under their indices; the other primitives spread into nothing.
\<close>

fun spread :: "jsval \<Rightarrow> (string \<times> jsval) list" where
  "spread (JObj kvs) = kvs"
| "spread (JStr s) = map (\<lambda>i. (decimal i, JStr [s ! i])) [0 ..< length s]"
| "spread (RejectWithValue p m) = [(''payload'', p), (''meta'', m)]"
| "spread (FulfillWithMeta p m) = [(''payload'', p), (''meta'', m)]"
| "spread v = []"

text \<open>
  An object literal \<^verbatim>\<open>{...base, k1: v1, ..., kn: vn}\<close>: the properties are written
  from left to right, a later one replacing an earlier one of the same name.
\<close>

definition literal :: "(string \<times> jsval) list \<Rightarrow> (string \<times> jsval) list \<Rightarrow> (string \<times> jsval) list" where
  "literal base fields = foldl (\<lambda>obj (k, v). AList.update k v obj) base fields"

section \<open>Serialized errors\<close>

definition commonProperties :: "string list" where
  "commonProperties = [''name'', ''message'', ''stack'', ''code'']"

definition miniSerializeError :: "jsval \<Rightarrow> jsval" where
  "miniSerializeError v =
     (if is_object v then
        JObj (foldl
          (\<lambda>simpleError property.
             case get v property of
               JStr s \<Rightarrow> AList.update property (JStr s) simpleError
             | _ \<Rightarrow> simpleError)
          [] commonProperties)
      else JObj [(''message'', JStr (js_String v))])"

section \<open>Actions and the three action creators\<close>

text \<open>
  What a \<^verbatim>\<open>prepare\<close> callback returns, and the action built from it. The field
  \<open>error\<close> is \<open>None\<close> when the object has no such property.
\<close>

record prepared =
  payload :: jsval
  meta :: jsval
  error :: "jsval option"

record action = prepared +
  type :: string

text \<open>
  Modelled from the spec: \<^verbatim>\<open>createAction\<close> (\<^verbatim>\<open>./createAction\<close>) is not among
  the source files. The spec describes it as the event-constructor factory that, given a
  label and a payload/metadata shaping function, returns a callable producing a tagged
  event object carrying a discriminant field; \<open>match\<close> is the branch on that field.
\<close>

definition createAction :: "string \<Rightarrow> ('a \<Rightarrow> prepared) \<Rightarrow> 'a \<Rightarrow> action" where
  "createAction label prepareAction args = prepared.extend (prepareAction args) (action.fields label)"

definition match :: "string \<Rightarrow> action \<Rightarrow> bool" where
  "match label a = (type a = label)"

text \<open>
  \<^verbatim>\<open>AsyncThunkOptions\<close>. Every callback may throw. \<open>condition\<close> and the payload
  creator may also return a promise (type \<open>ret\<close>): \<open>ReturnsPromise\<close> is the case in
  which \<^verbatim>\<open>isThenable\<close> holds of what was returned, and it tells how the promise will
  settle, if ever. A promise that is settled already when it is returned is a
  \<open>ReturnsPromise\<close> whose settling is the next event. What \<open>serializeError\<close>,
  \<open>idGenerator\<close> and \<open>getPendingMeta\<close> return is used as it is: \<open>Inr v\<close> when the
  callback returns \<open>v\<close>, \<open>Inl e\<close> when it throws \<open>e\<close>.
\<close>

datatype settlement = Fulfils jsval | Rejects jsval | Never

datatype ret = Returns jsval | ReturnsPromise settlement | Throws jsval

record options =
  condition :: "(jsval \<Rightarrow> jsval \<Rightarrow> jsval \<Rightarrow> ret) option"
  dispatchConditionRejection :: "bool option"
  serializeError :: "(jsval \<Rightarrow> jsval + jsval) option"
  idGenerator :: "(jsval \<Rightarrow> jsval + string) option"
  getPendingMeta :: "(string \<Rightarrow> jsval \<Rightarrow> jsval \<Rightarrow> jsval \<Rightarrow> jsval + jsval) option"

definition fulfilled :: "string \<Rightarrow> jsval \<times> string \<times> jsval \<times> jsval \<Rightarrow> action" where
  "fulfilled typePrefix =
     createAction (typePrefix @ ''/fulfilled'')
       (\<lambda>(payload, requestId, arg, meta).
          \<lparr> payload = payload,
            meta = JObj (literal (spread (if truthy meta then meta else JObj []))
              [(''arg'', arg),
               (''requestId'', JStr requestId),
               (''requestStatus'', JStr ''fulfilled'')]),
            error = None \<rparr>)"

definition pending :: "string \<Rightarrow> string \<times> jsval \<times> jsval \<Rightarrow> action" where
  "pending typePrefix =
     createAction (typePrefix @ ''/pending'')
       (\<lambda>(requestId, arg, meta).
          \<lparr> payload = JUndefined,
            meta = JObj (literal (spread (if truthy meta then meta else JObj []))
              [(''arg'', arg),
               (''requestId'', JStr requestId),
               (''requestStatus'', JStr ''pending'')]),
            error = None \<rparr>)"

text \<open>
  \<^verbatim>\<open>((options && options.serializeError) || miniSerializeError)(error || 'Rejected')\<close>:
  the value of the \<open>error\<close> property of a rejected action, or what \<open>serializeError\<close>
  throws.
\<close>

definition serialized :: "options option \<Rightarrow> jsval \<Rightarrow> jsval + jsval" where
  "serialized opts err =
     (case (case opts of None \<Rightarrow> None | Some os \<Rightarrow> serializeError os) of
        Some f \<Rightarrow> f
      | None \<Rightarrow> (\<lambda>v. Inr (miniSerializeError v)))
     (if truthy err then err else JStr ''Rejected'')"

text \<open>
  The rejected action whose \<open>error\<close> property has been computed to be \<open>e\<close>; and
  \<^verbatim>\<open>rejected\<close> itself, whose prepare callback throws (\<open>Inl\<close>) what
  \<open>serializeError\<close> throws: then no action is built.
\<close>

definition rejectedAction ::
  "string \<Rightarrow> jsval \<Rightarrow> jsval \<times> string \<times> jsval \<times> jsval \<times> jsval \<Rightarrow> action" where
  "rejectedAction typePrefix e =
     createAction (typePrefix @ ''/rejected'')
       (\<lambda>(error, requestId, arg, payload, meta).
          \<lparr> payload = payload,
            meta = JObj (literal (spread (if truthy meta then meta else JObj []))
              [(''arg'', arg),
               (''requestId'', JStr requestId),
               (''rejectedWithValue'', JBool (truthy payload)),
               (''requestStatus'', JStr ''rejected''),
               (''aborted'', JBool (get error ''name'' = JStr ''AbortError'')),
               (''condition'', JBool (get error ''name'' = JStr ''ConditionError''))]),
            error = Some e \<rparr>)"

definition rejected ::
  "options option \<Rightarrow> string \<Rightarrow> jsval \<times> string \<times> jsval \<times> jsval \<times> jsval \<Rightarrow> jsval + action" where
  "rejected opts typePrefix =
     (\<lambda>(error, requestId, arg, payload, meta).
        case serialized opts error of
          Inl thrown \<Rightarrow> Inl thrown
        | Inr e \<Rightarrow> Inr (rejectedAction typePrefix e (error, requestId, arg, payload, meta)))"

text \<open>\<^verbatim>\<open>unwrapResult\<close>: \<open>Inl\<close> is a throw, \<open>Inr\<close> the returned payload.\<close>

definition unwrapResult :: "action \<Rightarrow> jsval + jsval" where
  "unwrapResult a =
     (if truthy (meta a) \<and> truthy (get (meta a) ''rejectedWithValue'') then Inl (payload a)
      else case error a of
             Some e \<Rightarrow> if truthy e then Inl e else Inr (payload a)
           | None \<Rightarrow> Inr (payload a))"

section \<open>One invocation of the thunk\<close>

text \<open>
  A thunk is what \<^verbatim>\<open>createAsyncThunk(typePrefix, payloadCreator, options)\<close> closes
  over. One call of the payload creator is described by what it does before it returns:
  the calls of \<^verbatim>\<open>thunkAPI.abort\<close> it makes, in order, and how it returns. Its
  arguments are \<open>arg\<close>, the request id, and the store's state and extra argument.
\<close>

record creator_run =
  aborts :: "string option list"
  returned :: ret

record thunk =
  typePrefix :: string
  payloadCreator :: "jsval \<Rightarrow> string \<Rightarrow> jsval \<Rightarrow> jsval \<Rightarrow> creator_run"
  options :: "options option"

text \<open>
  The environment of a call \<^verbatim>\<open>actionCreator(arg)(dispatch, getState, extra)\<close>:
  \<open>dispatch a\<close> is \<open>Some e\<close> when dispatching \<open>a\<close> throws \<open>e\<close>; \<open>nanoid\<close> is the
  id that \<^verbatim>\<open>nanoid()\<close> draws; \<open>hasAbortController\<close> tells whether the platform has
  a native \<^verbatim>\<open>AbortController\<close> (else the source's inert stand-in is used).
\<close>

record env =
  dispatch :: "action \<Rightarrow> jsval option"
  getState :: jsval
  extra :: jsval
  nanoid :: string
  hasAbortController :: bool

text \<open>
  Promise reactions are jobs in the microtask queue; each carries the settlement it
  reacts to (\<open>Inl\<close> a rejection, \<open>Inr\<close> a fulfilment).
  \<^item> \<open>ResumeAfterCondition\<close>: the function resumes after \<^verbatim>\<open>await conditionResult\<close>;
  \<^item> \<open>ThenCallback\<close>: the reaction of \<^verbatim>\<open>Promise.resolve(payloadCreator(..)).then(..)\<close>;
  \<^item> \<open>RaceAborted\<close>: the reaction of \<^verbatim>\<open>Promise.race\<close> to \<^verbatim>\<open>abortedPromise\<close>;
  \<^item> \<open>RaceSettled\<close>: the reaction of \<^verbatim>\<open>Promise.race\<close> to the promise of \<^verbatim>\<open>.then\<close>;
  \<^item> \<open>ResumeAfterRace\<close>: the function resumes after \<^verbatim>\<open>await Promise.race(..)\<close>.
\<close>

datatype job =
    ResumeAfterCondition "jsval + jsval"
  | ThenCallback "jsval + jsval"
  | RaceAborted jsval
  | RaceSettled "jsval + action"
  | ResumeAfterRace "jsval + action"

datatype phase = AwaitingCondition | Racing | Finished

record state =
  started :: bool
  abortReason :: "string option"
  abortedPromise :: "jsval option"
  raceCreated :: bool
  raceSettled :: bool
  conditionPromise :: "settlement option"
  creatorPromise :: "settlement option"
  phase :: phase
  queue :: "job list"
  dispatched :: "action list"
  creatorCalls :: nat
  finalAction :: "action option"
  promise :: "(jsval + action) option"

text \<open>
  \<open>abortedPromise\<close> is \<open>Some e\<close> once the promise is rejected with \<open>e\<close>;
  \<open>conditionPromise\<close> and \<open>creatorPromise\<close> hold a promise returned by the callback
  while it is pending, with the way it will settle; \<open>dispatched\<close> lists the actions
  passed to \<^verbatim>\<open>dispatch\<close> by the function itself, in order; \<open>promise\<close> is the promise
  returned to the caller (\<open>None\<close> while pending, \<open>Inr a\<close> resolved with \<open>a\<close>,
  \<open>Inl e\<close> rejected with \<open>e\<close>).
\<close>

text \<open>
  The first statement of the call computes the request id; when \<open>idGenerator\<close> throws,
  the call itself throws: there is no promise and nothing has been dispatched. Otherwise
  the call goes on as an invocation, which is what the rest of the function closes over:
  the thunk, the environment, the argument and the request id.
\<close>

record invocation =
  the_thunk :: thunk
  the_env :: env
  arg :: jsval
  requestId :: string

definition generateId :: "thunk \<Rightarrow> env \<Rightarrow> jsval \<Rightarrow> jsval + string" where
  "generateId th en a =
     (case (case options th of None \<Rightarrow> None | Some os \<Rightarrow> idGenerator os) of
        Some g \<Rightarrow> g a
      | None \<Rightarrow> Inr (nanoid en))"

definition invoke :: "thunk \<Rightarrow> env \<Rightarrow> jsval \<Rightarrow> jsval + invocation" where
  "invoke th en a =
     (case generateId th en a of
        Inl thrown \<Rightarrow> Inl thrown
      | Inr rid \<Rightarrow> Inr \<lparr> the_thunk = th, the_env = en, arg = a, requestId = rid \<rparr>)"

definition enqueue :: "job \<Rightarrow> state \<Rightarrow> state" where
  "enqueue j s = s\<lparr>queue := queue s @ [j]\<rparr>"

text \<open>
  The value \<open>abortedPromise\<close> is rejected with:
  \<^verbatim>\<open>{ name: 'AbortError', message: abortReason || 'Aborted' }\<close>.
  \<^verbatim>\<open>abortController.abort()\<close>: the first call on a native controller fires the
  listener, which rejects \<open>abortedPromise\<close>; if \<^verbatim>\<open>Promise.race\<close> has subscribed to it,
  its reaction is queued. The stand-in controller does nothing.
\<close>

definition abortError :: "string option \<Rightarrow> jsval" where
  "abortError reason =
     JObj [(''name'', JStr ''AbortError''),
           (''message'', JStr (case reason of
                                 Some r \<Rightarrow> if r \<noteq> [] then r else ''Aborted''
                               | None \<Rightarrow> ''Aborted''))]"

definition controller_abort :: "invocation \<Rightarrow> state \<Rightarrow> state" where
  "controller_abort c s =
     (if hasAbortController (the_env c) \<and> abortedPromise s = None then
        let s' = s\<lparr>abortedPromise := Some (abortError (abortReason s))\<rparr>
        in if raceCreated s then enqueue (RaceAborted (abortError (abortReason s))) s' else s'
      else s)"

definition abort :: "invocation \<Rightarrow> string option \<Rightarrow> state \<Rightarrow> state" where
  "abort c reason s =
     (if started s then controller_abort c (s\<lparr>abortReason := reason\<rparr>) else s)"

text \<open>The code after the \<^verbatim>\<open>try\<close>/\<^verbatim>\<open>catch\<close>: \<open>skipDispatch\<close>, the final dispatch, the return.\<close>

definition skipDispatch :: "invocation \<Rightarrow> action \<Rightarrow> bool" where
  "skipDispatch c a =
     (case options (the_thunk c) of
        None \<Rightarrow> False
      | Some os \<Rightarrow>
          \<not> (case dispatchConditionRejection os of Some b \<Rightarrow> b | None \<Rightarrow> False) \<and>
          match (typePrefix (the_thunk c) @ ''/rejected'') a \<and>
          truthy (get (meta a) ''condition''))"

definition finish :: "invocation \<Rightarrow> action \<Rightarrow> state \<Rightarrow> state" where
  "finish c a s =
     (let s' = s\<lparr>finalAction := Some a, phase := Finished\<rparr>
      in if skipDispatch c a then s'\<lparr>promise := Some (Inr a)\<rparr>
         else
           let s'' = s'\<lparr>dispatched := dispatched s' @ [a]\<rparr>
           in case dispatch (the_env c) a of
                Some e \<Rightarrow> s''\<lparr>promise := Some (Inl e)\<rparr>
              | None \<Rightarrow> s''\<lparr>promise := Some (Inr a)\<rparr>)"

text \<open>
  An exception leaves the async function: the promise returned to the caller is rejected
  with it, and no final action has been assigned.
\<close>

definition fail :: "jsval \<Rightarrow> state \<Rightarrow> state" where
  "fail thrown s = s\<lparr>phase := Finished, promise := Some (Inl thrown)\<rparr>"

text \<open>
  The \<^verbatim>\<open>catch\<close> block: the action it builds, then the code after it. When
  \<^verbatim>\<open>rejected\<close> throws there, inside the \<^verbatim>\<open>catch\<close> block, the exception leaves
  the function.
\<close>

definition catch_action :: "invocation \<Rightarrow> jsval \<Rightarrow> jsval + action" where
  "catch_action c err =
     (case err of
        RejectWithValue p m \<Rightarrow>
          rejected (options (the_thunk c)) (typePrefix (the_thunk c))
            (JNull, requestId c, arg c, p, m)
      | _ \<Rightarrow>
          rejected (options (the_thunk c)) (typePrefix (the_thunk c))
            (err, requestId c, arg c, JUndefined, JUndefined))"

definition catch :: "invocation \<Rightarrow> jsval \<Rightarrow> state \<Rightarrow> state" where
  "catch c err s =
     (case catch_action c err of
        Inl thrown \<Rightarrow> fail thrown s
      | Inr a \<Rightarrow> finish c a s)"

text \<open>
  \<^verbatim>\<open>options?.getPendingMeta?.({ requestId, arg }, { getState, extra })\<close>, undefined
  without the option; and the pending action built with it. When \<open>getPendingMeta\<close>
  throws, no pending action is built.
\<close>

definition pendingMeta :: "invocation \<Rightarrow> jsval + jsval" where
  "pendingMeta c =
     (case (case options (the_thunk c) of None \<Rightarrow> None | Some os \<Rightarrow> getPendingMeta os) of
        Some f \<Rightarrow> f (requestId c) (arg c) (getState (the_env c)) (extra (the_env c))
      | None \<Rightarrow> Inr JUndefined)"

definition pendingAction :: "invocation \<Rightarrow> jsval + action" where
  "pendingAction c =
     (case pendingMeta c of
        Inl thrown \<Rightarrow> Inl thrown
      | Inr m \<Rightarrow> Inr (pending (typePrefix (the_thunk c)) (requestId c, arg c, m)))"

text \<open>
  The callback of \<^verbatim>\<open>.then\<close>: it throws a \<^verbatim>\<open>RejectWithValue\<close> (\<open>Inl\<close>) and
  returns the fulfilled action otherwise.
\<close>

definition then_callback :: "invocation \<Rightarrow> jsval \<Rightarrow> jsval + action" where
  "then_callback c result =
     (case result of
        RejectWithValue p m \<Rightarrow> Inl result
      | FulfillWithMeta p m \<Rightarrow>
          Inr (fulfilled (typePrefix (the_thunk c)) (p, requestId c, arg c, m))
      | _ \<Rightarrow>
          Inr (fulfilled (typePrefix (the_thunk c)) (result, requestId c, arg c, JUndefined)))"

text \<open>
  \<^verbatim>\<open>Promise.race([abortedPromise, ..])\<close> subscribes to \<open>abortedPromise\<close>: when that
  promise is rejected already, the reaction is queued at once. Then the function
  suspends at the \<^verbatim>\<open>await\<close>.
\<close>

definition create_race :: "state \<Rightarrow> state" where
  "create_race s =
     (let s' = s\<lparr>raceCreated := True, phase := Racing\<rparr>
      in case abortedPromise s' of
           Some err \<Rightarrow> enqueue (RaceAborted err) s'
         | None \<Rightarrow> s')"

text \<open>
  The payload creator is called; \<^verbatim>\<open>Promise.resolve(..).then(..)\<close> queues the
  callback at once for a value returned directly, and waits for a returned promise.
\<close>

definition creatorRun :: "invocation \<Rightarrow> creator_run" where
  "creatorRun c =
     payloadCreator (the_thunk c) (arg c) (requestId c) (getState (the_env c)) (extra (the_env c))"

definition call_creator :: "invocation \<Rightarrow> state \<Rightarrow> state" where
  "call_creator c s =
     (let s1 = s\<lparr>creatorCalls := creatorCalls s + 1\<rparr>;
          s2 = foldl (\<lambda>s reason. abort c reason s) s1 (aborts (creatorRun c))
      in case returned (creatorRun c) of
           Throws err \<Rightarrow> catch c err s2
         | Returns v \<Rightarrow> create_race (enqueue (ThenCallback (Inr v)) s2)
         | ReturnsPromise p \<Rightarrow> create_race (s2\<lparr>creatorPromise := Some p\<rparr>))"

text \<open>
  The \<^verbatim>\<open>try\<close> block from the test of \<open>conditionResult\<close> on: the condition error,
  or \<open>started\<close>, the dispatch of the pending action and the call of the payload creator.
  What \<open>getPendingMeta\<close> or \<open>dispatch\<close> throws there is caught.
\<close>

definition conditionError :: jsval where
  "conditionError =
     JObj [(''name'', JStr ''ConditionError''),
           (''message'', JStr ''Aborted due to condition callback returning false.'')]"

definition after_condition :: "invocation \<Rightarrow> jsval \<Rightarrow> state \<Rightarrow> state" where
  "after_condition c conditionResult s =
     (if conditionResult = JBool False then catch c conditionError s
      else
        let s1 = s\<lparr>started := True\<rparr>
        in case pendingAction c of
             Inl thrown \<Rightarrow> catch c thrown s1
           | Inr p \<Rightarrow>
               (let s2 = s1\<lparr>dispatched := dispatched s1 @ [p]\<rparr>
                in (case dispatch (the_env c) p of
                      Some err \<Rightarrow> catch c err s2
                    | None \<Rightarrow> call_creator c s2)))"

text \<open>
  The call from its second statement on: the controller, \<open>abortedPromise\<close>, and the
  async function up to its first \<^verbatim>\<open>await\<close> (or to its end, when it never suspends).
\<close>

definition initial :: state where
  "initial =
     \<lparr> started = False, abortReason = None, abortedPromise = None,
       raceCreated = False, raceSettled = False,
       conditionPromise = None, creatorPromise = None,
       phase = AwaitingCondition, queue = [], dispatched = [], creatorCalls = 0,
       finalAction = None, promise = None \<rparr>"

text \<open>\<^verbatim>\<open>options?.condition?.(arg, { getState, extra })\<close>: undefined without the option.\<close>

definition conditionResult :: "invocation \<Rightarrow> ret" where
  "conditionResult c =
     (case (case options (the_thunk c) of None \<Rightarrow> None | Some os \<Rightarrow> condition os) of
        None \<Rightarrow> Returns JUndefined
      | Some f \<Rightarrow> f (arg c) (getState (the_env c)) (extra (the_env c)))"

definition actionCreator :: "invocation \<Rightarrow> state" where
  "actionCreator c =
     (case conditionResult c of
        Throws err \<Rightarrow> catch c err initial
      | Returns v \<Rightarrow> after_condition c v initial
      | ReturnsPromise p \<Rightarrow> initial\<lparr>conditionPromise := Some p\<rparr>)"

text \<open>Running one job of the microtask queue.\<close>

definition settle_race :: "jsval + action \<Rightarrow> state \<Rightarrow> state" where
  "settle_race r s =
     (if raceSettled s then s
      else enqueue (ResumeAfterRace r) (s\<lparr>raceSettled := True\<rparr>))"

fun run_job :: "invocation \<Rightarrow> job \<Rightarrow> state \<Rightarrow> state" where
  "run_job c (ResumeAfterCondition (Inr v)) s = after_condition c v s"
| "run_job c (ResumeAfterCondition (Inl err)) s = catch c err s"
| "run_job c (ThenCallback (Inr result)) s = enqueue (RaceSettled (then_callback c result)) s"
| "run_job c (ThenCallback (Inl err)) s = enqueue (RaceSettled (Inl err)) s"
| "run_job c (RaceAborted err) s = settle_race (Inl err) s"
| "run_job c (RaceSettled r) s = settle_race r s"
| "run_job c (ResumeAfterRace (Inr a)) s = finish c a s"
| "run_job c (ResumeAfterRace (Inl err)) s = catch c err s"

text \<open>
  What can happen to a running invocation: somebody calls \<^verbatim>\<open>abort(reason)\<close>, the
  promise returned by \<open>condition\<close> or by the payload creator settles, or the event loop
  runs the next microtask.
\<close>

datatype event =
    CallAbort "string option"
  | ConditionSettles
  | CreatorSettles
  | Microtask

fun step :: "invocation \<Rightarrow> event \<Rightarrow> state \<Rightarrow> state" where
  "step c (CallAbort reason) s = abort c reason s"
| "step c ConditionSettles s =
     (case conditionPromise s of
        Some (Fulfils v) \<Rightarrow> enqueue (ResumeAfterCondition (Inr v)) (s\<lparr>conditionPromise := None\<rparr>)
      | Some (Rejects err) \<Rightarrow> enqueue (ResumeAfterCondition (Inl err)) (s\<lparr>conditionPromise := None\<rparr>)
      | _ \<Rightarrow> s)"
| "step c CreatorSettles s =
     (case creatorPromise s of
        Some (Fulfils v) \<Rightarrow> enqueue (ThenCallback (Inr v)) (s\<lparr>creatorPromise := None\<rparr>)
      | Some (Rejects err) \<Rightarrow> enqueue (ThenCallback (Inl err)) (s\<lparr>creatorPromise := None\<rparr>)
      | _ \<Rightarrow> s)"
| "step c Microtask s =
     (case queue s of
        [] \<Rightarrow> s
      | j # js \<Rightarrow> run_job c j (s\<lparr>queue := js\<rparr>))"

definition steps :: "invocation \<Rightarrow> event list \<Rightarrow> state \<Rightarrow> state" where
  "steps c evs s = foldl (\<lambda>s ev. step c ev s) s evs"

definition run :: "invocation \<Rightarrow> event list \<Rightarrow> state" where
  "run c evs = steps c evs (actionCreator c)"

text \<open>\<^verbatim>\<open>unwrap()\<close> is \<^verbatim>\<open>promise.then(unwrapResult)\<close>: its promise, once \<open>promise\<close> has settled.\<close>

definition unwrap :: "state \<Rightarrow> (jsval + jsval) option" where
  "unwrap s =
     (case promise s of
        None \<Rightarrow> None
      | Some (Inl e) \<Rightarrow> Some (Inl e)
      | Some (Inr a) \<Rightarrow> Some (unwrapResult a))"

section \<open>Predicates on jobs and states\<close>

fun is_resume_condition :: "job \<Rightarrow> bool" where
  "is_resume_condition (ResumeAfterCondition r) = True"
| "is_resume_condition j = False"

fun is_resume_race :: "job \<Rightarrow> bool" where
  "is_resume_race (ResumeAfterRace r) = True"
| "is_resume_race j = False"

fun is_race_settled :: "job \<Rightarrow> bool" where
  "is_race_settled (RaceSettled r) = True"
| "is_race_settled j = False"

fun is_then_chain :: "job \<Rightarrow> bool" where
  "is_then_chain (ThenCallback r) = True"
| "is_then_chain (RaceSettled r) = True"
| "is_then_chain j = False"

fun aborted_with :: "job \<Rightarrow> jsval option" where
  "aborted_with (RaceAborted e) = Some e"
| "aborted_with j = None"

fun is_abort :: "event \<Rightarrow> bool" where
  "is_abort (CallAbort reason) = True"
| "is_abort ev = False"

text \<open>
  The shape of every state an invocation reaches: a queued reaction to \<open>abortedPromise\<close>
  carries the value that promise was rejected with; while the condition is awaited nothing
  has started and the queue holds at most the resumption; while the race is on, the
  function's resumption is queued exactly when the race is settled, and as long as it
  is not, the payload creator's promise is pending or its reaction chain is queued; once
  the function has returned or thrown, the caller's promise is settled and nothing resumes
  it.
\<close>

definition wf_state :: "state \<Rightarrow> bool" where
  "wf_state s =
     ((\<forall>j \<in> set (queue s). aborted_with j = None \<or> aborted_with j = abortedPromise s) \<and>
      (phase s = AwaitingCondition \<longrightarrow>
         \<not> started s \<and> \<not> raceCreated s \<and> \<not> raceSettled s \<and>
         creatorPromise s = None \<and> promise s = None \<and> finalAction s = None \<and>
         (if conditionPromise s = None
          then length (queue s) = 1 \<and> list_all is_resume_condition (queue s)
          else queue s = [])) \<and>
      (phase s \<noteq> AwaitingCondition \<longrightarrow>
         conditionPromise s = None \<and> \<not> list_ex is_resume_condition (queue s)) \<and>
      (phase s = Racing \<longrightarrow>
         started s \<and> raceCreated s \<and> promise s = None \<and> finalAction s = None \<and>
         length (filter is_resume_race (queue s)) = (if raceSettled s then 1 else 0) \<and>
         (\<not> raceSettled s \<and> creatorPromise s = None \<longrightarrow> list_ex is_then_chain (queue s))) \<and>
      (phase s = Finished \<longrightarrow>
         promise s \<noteq> None \<and>
         \<not> list_ex is_resume_race (queue s) \<and>
         (\<not> raceSettled s \<longrightarrow> queue s = [] \<and> creatorPromise s = None \<and> \<not> raceCreated s)))"

text \<open>
  The microtasks a queued job can still cause, itself included: a bound on the work left
  in the queue.
\<close>

fun weight :: "job \<Rightarrow> nat" where
  "weight (ThenCallback r) = 3"
| "weight (RaceSettled r) = 2"
| "weight (RaceAborted e) = 2"
| "weight (ResumeAfterRace r) = 1"
| "weight (ResumeAfterCondition r) = 1"

definition work :: "state \<Rightarrow> nat" where
  "work s = sum_list (map weight (queue s))"

text \<open>The promises that \<open>condition\<close> and the payload creator return settle at some time.\<close>

definition promises_settle :: "invocation \<Rightarrow> bool" where
  "promises_settle c =
     (conditionResult c \<noteq> ReturnsPromise Never \<and> returned (creatorRun c) \<noteq> ReturnsPromise Never)"

definition settling :: "state \<Rightarrow> bool" where
  "settling s = (conditionPromise s \<noteq> Some Never \<and> creatorPromise s \<noteq> Some Never)"

text \<open>The action a queued job will hand to the race or to the function, if any.\<close>

fun job_action :: "job \<Rightarrow> action option" where
  "job_action (RaceSettled (Inr a)) = Some a"
| "job_action (ResumeAfterRace (Inr a)) = Some a"
| "job_action j = None"

text \<open>
  Every dispatched action satisfies \<open>D\<close>, the final action and every action still on
  its way to become final satisfy \<open>F\<close>, and a resolved promise holds the final action.
\<close>

fun resolved :: "(jsval + action) option \<Rightarrow> action option" where
  "resolved (Some (Inr a)) = Some a"
| "resolved r = None"

definition produced_ok :: "(action \<Rightarrow> bool) \<Rightarrow> (action \<Rightarrow> bool) \<Rightarrow> state \<Rightarrow> bool" where
  "produced_ok D F s =
     (list_all D (dispatched s) \<and>
      pred_option F (finalAction s) \<and>
      (resolved (promise s) = None \<or> resolved (promise s) = finalAction s) \<and>
      list_all (\<lambda>j. pred_option F (job_action j)) (queue s))"

fun is_flag :: "jsval option \<Rightarrow> bool" where
  "is_flag (Some (JBool b)) = True"
| "is_flag v = False"

text \<open>
  The metadata of a lifecycle action of invocation \<open>c\<close>: \<open>arg\<close>, \<open>requestId\<close> and
  the \<open>requestStatus\<close> that goes with the action's type, and for a rejected action the
  three boolean flags.
\<close>

definition lifecycle_meta :: "invocation \<Rightarrow> action \<Rightarrow> bool" where
  "lifecycle_meta c a =
     (props (meta a) ''arg'' = Some (arg c) \<and>
      props (meta a) ''requestId'' = Some (JStr (requestId c)) \<and>
      (type a = typePrefix (the_thunk c) @ ''/pending'' \<and>
         props (meta a) ''requestStatus'' = Some (JStr ''pending'') \<or>
       type a = typePrefix (the_thunk c) @ ''/fulfilled'' \<and>
         props (meta a) ''requestStatus'' = Some (JStr ''fulfilled'') \<or>
       type a = typePrefix (the_thunk c) @ ''/rejected'' \<and>
         props (meta a) ''requestStatus'' = Some (JStr ''rejected'') \<and>
         is_flag (props (meta a) ''aborted'') \<and>
         is_flag (props (meta a) ''condition'') \<and>
         is_flag (props (meta a) ''rejectedWithValue'')))"

text \<open>Dispatching a fulfilled or a rejected action of this thunk returns normally.\<close>

definition final_dispatch_returns :: "invocation \<Rightarrow> bool" where
  "final_dispatch_returns c =
     (\<forall>a. match (typePrefix (the_thunk c) @ ''/fulfilled'') a \<or>
          match (typePrefix (the_thunk c) @ ''/rejected'') a
          \<longrightarrow> dispatch (the_env c) a = None)"

definition is_final_type :: "invocation \<Rightarrow> action \<Rightarrow> bool" where
  "is_final_type c a =
     (match (typePrefix (the_thunk c) @ ''/fulfilled'') a \<or>
      match (typePrefix (the_thunk c) @ ''/rejected'') a)"

fun rejection :: "(jsval + action) option \<Rightarrow> jsval option" where
  "rejection (Some (Inl e)) = Some e"
| "rejection r = None"

text \<open>
  How a step can change the final action \<open>f\<close> and the promise \<open>p\<close>: not at all, or
  by the code after the \<^verbatim>\<open>catch\<close> block, which sets both, or by an exception of
  \<^verbatim>\<open>rejected\<close> in the \<^verbatim>\<open>catch\<close> block, which leaves the function and rejects
  the promise.
\<close>

definition concludes ::
  "invocation \<Rightarrow> action option \<Rightarrow> (jsval + action) option \<Rightarrow> state \<Rightarrow> bool" where
  "concludes c f p s' =
     (finalAction s' = f \<and> promise s' = p \<or>
      (\<exists>a t. finalAction s' = Some a \<and> promise s' = promise (finish c a t)) \<or>
      finalAction s' = f \<and>
        (\<exists>err thrown. catch_action c err = Inl thrown \<and> promise s' = Some (Inl thrown)))"

text \<open>
  What the code after the \<^verbatim>\<open>catch\<close> block makes of the promise, given the final
  action: resolved with it, or rejected with what the final dispatch threw.
\<close>

definition settled_with :: "invocation \<Rightarrow> action \<Rightarrow> (jsval + action) option" where
  "settled_with c a =
     (if skipDispatch c a then Some (Inr a)
      else case dispatch (the_env c) a of Some e \<Rightarrow> Some (Inl e) | None \<Rightarrow> Some (Inr a))"

section \<open>The course of an invocation\<close>

fun settlement_result :: "settlement \<Rightarrow> (jsval + jsval) option" where
  "settlement_result (Fulfils v) = Some (Inr v)"
| "settlement_result (Rejects e) = Some (Inl e)"
| "settlement_result Never = None"

text \<open>
  The state in which the function leaves the condition: at once when \<open>condition\<close> is
  absent or returns or throws, and in the microtask that resumes it after the
  \<^verbatim>\<open>await\<close> when \<open>condition\<close> returned a promise.
\<close>

definition entry :: "invocation \<Rightarrow> state" where
  "entry c =
     (case conditionResult c of
        Throws err \<Rightarrow> catch c err initial
      | Returns v \<Rightarrow> after_condition c v initial
      | ReturnsPromise p \<Rightarrow>
          (case settlement_result p of
             Some r \<Rightarrow> run_job c (ResumeAfterCondition r) initial
           | None \<Rightarrow> initial\<lparr>conditionPromise := Some p\<rparr>))"

text \<open>
  The states of a race that nobody aborts: the pending action \<open>p\<close> has been dispatched,
  the payload creator has been called once, and the queue holds the one job in flight.
\<close>

definition racing :: "action \<Rightarrow> settlement option \<Rightarrow> job list \<Rightarrow> bool \<Rightarrow> state" where
  "racing p cp q rs =
     initial\<lparr>started := True, raceCreated := True, raceSettled := rs, creatorPromise := cp,
             phase := Racing, queue := q, dispatched := [p], creatorCalls := 1\<rparr>"

text \<open>What the reaction of \<^verbatim>\<open>.then\<close> hands to the race.\<close>

definition then_result :: "invocation \<Rightarrow> jsval + jsval \<Rightarrow> jsval + action" where
  "then_result c r = (case r of Inl err \<Rightarrow> Inl err | Inr v \<Rightarrow> then_callback c v)"

text \<open>
  The action that the \<^verbatim>\<open>catch\<close> block builds for a caught value \<open>err\<close> that is no
  \<^verbatim>\<open>RejectWithValue\<close>, when \<open>serializeError\<close> has returned \<open>se\<close> for it.
\<close>

definition caught :: "invocation \<Rightarrow> jsval \<Rightarrow> jsval \<Rightarrow> action" where
  "caught c err se =
     rejectedAction (typePrefix (the_thunk c)) se (err, requestId c, arg c, JUndefined, JUndefined)"

text \<open>What a call returned, when it returned.\<close>

fun normally :: "jsval + 'a \<Rightarrow> 'a option" where
  "normally (Inr x) = Some x"
| "normally (Inl thrown) = None"

fun is_race_aborted :: "job \<Rightarrow> bool" where
  "is_race_aborted (RaceAborted e) = True"
| "is_race_aborted j = False"

text \<open>
  The value the function tests after the condition: what \<open>condition\<close> returned, or
  what its promise was fulfilled with. The gate passes when that value is not false
  (in particular when there is no \<open>condition\<close>).
\<close>

definition gate_value :: "invocation \<Rightarrow> jsval option" where
  "gate_value c =
     (case conditionResult c of
        Returns v \<Rightarrow> Some v
      | ReturnsPromise (Fulfils v) \<Rightarrow> Some v
      | _ \<Rightarrow> None)"

definition gate_passes :: "invocation \<Rightarrow> bool" where
  "gate_passes c = (case gate_value c of Some v \<Rightarrow> v \<noteq> JBool False | None \<Rightarrow> False)"

text \<open>No \<open>serializeError\<close> option: errors are serialized by \<open>miniSerializeError\<close>.\<close>

definition default_serializer :: "invocation \<Rightarrow> bool" where
  "default_serializer c =
     (case options (the_thunk c) of None \<Rightarrow> True | Some os \<Rightarrow> serializeError os = None)"

text \<open>\<open>serializeError\<close>, if there is one, returns normally whatever error it is given.\<close>

definition serializer_returns :: "invocation \<Rightarrow> bool" where
  "serializer_returns c = (\<forall>v. \<exists>e. serialized (options (the_thunk c)) v = Inr e)"


text \<open>A plain value: not an instance of one of the two marker classes.\<close>

fun is_plain :: "jsval \<Rightarrow> bool" where
  "is_plain (RejectWithValue p m) = False"
| "is_plain (FulfillWithMeta p m) = False"
| "is_plain v = True"

text \<open>The option \<open>dispatchConditionRejection\<close> is set and true.\<close>

definition dispatchesConditionRejection :: "invocation \<Rightarrow> bool" where
  "dispatchesConditionRejection c =
     (case options (the_thunk c) of
        None \<Rightarrow> False
      | Some os \<Rightarrow> (case dispatchConditionRejection os of Some b \<Rightarrow> b | None \<Rightarrow> False))"

definition can_progress :: "state \<Rightarrow> bool" where
  "can_progress s =
     (raceSettled s \<or> list_ex (\<lambda>j. is_then_chain j \<or> is_race_aborted j) (queue s))"

text \<open>
  The race is on, \<open>abort\<close> has not fired, and the payload creator's own settlement has
  not reached the race yet: its promise is pending, or the callback of \<^verbatim>\<open>.then\<close>
  is still queued.
\<close>

definition racing_undecided :: "state \<Rightarrow> bool" where
  "racing_undecided s =
     (phase s = Racing \<and> \<not> raceSettled s \<and> abortedPromise s = None \<and>
      \<not> list_ex is_race_settled (queue s))"

text \<open>
  \<open>abortedPromise\<close> is rejected with \<open>e\<close> and its reaction will reach the race first:
  it is queued with no \<open>RaceSettled\<close> job ahead of it, or the race is settled and only
  the rejection \<open>e\<close> can resume the function, or the function has finished in the
  \<^verbatim>\<open>catch\<close> block with \<open>e\<close>: with the rejected action of \<open>e\<close> as final action,
  or with none when \<^verbatim>\<open>rejected\<close> threw.
\<close>

definition abort_decides :: "invocation \<Rightarrow> jsval \<Rightarrow> state \<Rightarrow> bool" where
  "abort_decides c e s =
     (abortedPromise s = Some e \<and> phase s \<noteq> AwaitingCondition \<and>
      (phase s = Racing \<and> \<not> raceSettled s \<longrightarrow>
         RaceAborted e \<in> set (queue s) \<and>
         \<not> list_ex is_race_settled (takeWhile (\<lambda>j. j \<noteq> RaceAborted e) (queue s))) \<and>
      (phase s = Racing \<and> raceSettled s \<longrightarrow>
         (\<forall>j \<in> set (queue s). is_resume_race j \<longrightarrow> j = ResumeAfterRace (Inl e))) \<and>
      (phase s = Finished \<longrightarrow> finalAction s = normally (catch_action c e)))"

section \<open>Example invocations\<close>

text \<open>
  The scenario of the specification: the thunk \<^verbatim>\<open>fetchUser\<close>, whose operation with
  input 7 eventually returns \<^verbatim>\<open>{id: 7}\<close>, dispatched to a store that accepts every
  action, on a platform with \<^verbatim>\<open>AbortController\<close>.
\<close>

definition fetchUser :: thunk where
  "fetchUser =
     \<lparr> typePrefix = ''fetchUser'',
       payloadCreator =
         (\<lambda>a rid st ex. \<lparr> aborts = [], returned = ReturnsPromise (Fulfils (JObj [(''id'', a)])) \<rparr>),
       options = None \<rparr>"

definition store :: env where
  "store =
     \<lparr> dispatch = (\<lambda>a. None), getState = JNull, extra = JUndefined,
       nanoid = ''R'', hasAbortController = True \<rparr>"

definition fetchUser7 :: invocation where
  "fetchUser7 = \<lparr> the_thunk = fetchUser, the_env = store, arg = JNum 7, requestId = ''R'' \<rparr>"

text \<open>A store whose reducer throws on the fulfilled action.\<close>

definition throwingStore :: env where
  "throwingStore =
     store\<lparr>dispatch :=
       (\<lambda>a. if type a = ''fetchUser/fulfilled'' then Some (JStr ''reducer failed'') else None)\<rparr>"

text \<open>The same thunk behind a condition that resolves to false.\<close>

definition gatedFetchUser :: thunk where
  "gatedFetchUser =
     fetchUser\<lparr>options := Some
       \<lparr> condition = Some (\<lambda>a st ex. ReturnsPromise (Fulfils (JBool False))),
         dispatchConditionRejection = None,
         serializeError = None,
         idGenerator = None,
         getPendingMeta = None \<rparr>\<rparr>"

text \<open>The thunk \<^verbatim>\<open>fetchUser\<close> behind a condition that resolves to true.\<close>

definition checkedFetchUser :: thunk where
  "checkedFetchUser =
     fetchUser\<lparr>options := Some
       \<lparr> condition = Some (\<lambda>a st ex. ReturnsPromise (Fulfils (JBool True))),
         dispatchConditionRejection = None,
         serializeError = None,
         idGenerator = None,
         getPendingMeta = None \<rparr>\<rparr>"

text \<open>
  The gated thunk with \<open>dispatchConditionRejection: true\<close>, a store whose reducer throws
  on a rejected action, and the gated thunk with a \<open>serializeError\<close> that throws.
\<close>

definition gatedDispatching :: thunk where
  "gatedDispatching =
     fetchUser\<lparr>options := Some
       \<lparr> condition = Some (\<lambda>a st ex. ReturnsPromise (Fulfils (JBool False))),
         dispatchConditionRejection = Some True,
         serializeError = None,
         idGenerator = None,
         getPendingMeta = None \<rparr>\<rparr>"

definition rejectingStore :: env where
  "rejectingStore =
     store\<lparr>dispatch :=
       (\<lambda>a. if type a = ''fetchUser/rejected'' then Some (JStr ''reducer failed'') else None)\<rparr>"

definition gatedThrowingSerializer :: thunk where
  "gatedThrowingSerializer =
     fetchUser\<lparr>options := Some
       \<lparr> condition = Some (\<lambda>a st ex. ReturnsPromise (Fulfils (JBool False))),
         dispatchConditionRejection = None,
         serializeError = Some (\<lambda>e. Inl (JStr ''cannot serialize'')),
         idGenerator = None,
         getPendingMeta = None \<rparr>\<rparr>"


definition failingFetchUser :: thunk where
  "failingFetchUser =
     fetchUser\<lparr>payloadCreator :=
       (\<lambda>a rid st ex. \<lparr> aborts = [],
          returned = ReturnsPromise (Rejects (JObj [(''message'', JStr ''no such user'')])) \<rparr>)\<rparr>"

text \<open>A payload creator that calls \<^verbatim>\<open>rejectWithValue(0, { status: 404 })\<close>.\<close>

definition rejectingWithZero :: thunk where
  "rejectingWithZero =
     fetchUser\<lparr>payloadCreator :=
       (\<lambda>a rid st ex. \<lparr> aborts = [],
          returned = Returns (RejectWithValue (JNum 0) (JObj [(''status'', JNum 404)])) \<rparr>)\<rparr>"

text \<open>A payload creator that calls \<^verbatim>\<open>rejectWithValue('not found', { status: 404 })\<close>.\<close>

definition rejectingWithValue :: thunk where
  "rejectingWithValue =
     fetchUser\<lparr>payloadCreator :=
       (\<lambda>a rid st ex. \<lparr> aborts = [],
          returned = Returns (RejectWithValue (JStr ''not found'') (JObj [(''status'', JNum 404)])) \<rparr>)\<rparr>"

text \<open>
  A payload creator that calls \<^verbatim>\<open>fulfillWithValue(1, { rejectedWithValue: true })\<close>;
  and a thunk whose \<open>serializeError\<close> keeps the message only, with a payload creator
  that throws an object with an empty message.
\<close>

definition markedFulfil :: thunk where
  "markedFulfil =
     fetchUser\<lparr>payloadCreator :=
       (\<lambda>a rid st ex. \<lparr> aborts = [],
          returned = Returns (FulfillWithMeta (JNum 1) (JObj [(''rejectedWithValue'', JBool True)])) \<rparr>)\<rparr>"

definition messageSerializer :: thunk where
  "messageSerializer =
     \<lparr> typePrefix = ''fetchUser'',
       payloadCreator =
         (\<lambda>a rid st ex. \<lparr> aborts = [], returned = Throws (JObj [(''message'', JStr [])]) \<rparr>),
       options = Some
         \<lparr> condition = None,
           dispatchConditionRejection = None,
           serializeError = Some (\<lambda>e. Inr (get e ''message'')),
           idGenerator = None,
           getPendingMeta = None \<rparr> \<rparr>"

text \<open>
  The platform without \<^verbatim>\<open>AbortController\<close>; and a payload creator that calls
  \<^verbatim>\<open>thunkAPI.abort('changed my mind')\<close> before it returns its value.
\<close>

definition oldPlatform :: env where
  "oldPlatform = store\<lparr>hasAbortController := False\<rparr>"

definition selfAborting :: thunk where
  "selfAborting =
     fetchUser\<lparr>payloadCreator :=
       (\<lambda>a rid st ex. \<lparr> aborts = [Some ''changed my mind''],
          returned = Returns (JObj [(''id'', a)]) \<rparr>)\<rparr>"

text \<open>The thunk \<^verbatim>\<open>fetchUser\<close> with a \<open>serializeError\<close> option.\<close>

definition serializedFetchUser :: thunk where
  "serializedFetchUser =
     fetchUser\<lparr>options := Some
       \<lparr> condition = None,
         dispatchConditionRejection = None,
         serializeError = Some (\<lambda>e. Inr (JStr ''failed'')),
         idGenerator = None,
         getPendingMeta = None \<rparr>\<rparr>"

text \<open>
  A thunk whose payload creator throws and whose \<open>serializeError\<close> throws as well; and
  the thunk \<^verbatim>\<open>fetchUser\<close> with an \<open>idGenerator\<close> that throws.
\<close>

definition throwingSerializer :: thunk where
  "throwingSerializer =
     \<lparr> typePrefix = ''fetchUser'',
       payloadCreator =
         (\<lambda>a rid st ex. \<lparr> aborts = [], returned = Throws (JObj [(''message'', JStr ''no such user'')]) \<rparr>),
       options = Some
         \<lparr> condition = None,
           dispatchConditionRejection = None,
           serializeError = Some (\<lambda>e. Inl (JStr ''cannot serialize'')),
           idGenerator = None,
           getPendingMeta = None \<rparr> \<rparr>"

definition throwingIdGenerator :: thunk where
  "throwingIdGenerator =
     fetchUser\<lparr>options := Some
       \<lparr> condition = None,
         dispatchConditionRejection = None,
         serializeError = None,
         idGenerator = Some (\<lambda>a. Inl (JStr ''no id'')),
         getPendingMeta = None \<rparr>\<rparr>"

text \<open>The thunk \<^verbatim>\<open>fetchUser\<close> with a \<open>serializeError\<close> that throws.\<close>

definition unserializableFetchUser :: thunk where
  "unserializableFetchUser =
     fetchUser\<lparr>options := Some
       \<lparr> condition = None,
         dispatchConditionRejection = None,
         serializeError = Some (\<lambda>e. Inl (JStr ''cannot serialize'')),
         idGenerator = None,
         getPendingMeta = None \<rparr>\<rparr>"

section \<open>Properties of the action creators\<close>

lemma map_of_literal: "map_of (literal base ps) = map_of base ++ map_of (rev ps)"
  unfolding literal_def
proof (induction ps arbitrary: base)
  case Nil
  show ?case by simp
next
  case (Cons kv ps)
  obtain k v where kv: "kv = (k, v)" by (cases kv)
  show ?case
    by (simp add: kv Cons.IH update_conv' map_of_append fun_eq_iff map_add_def
        split: option.splits)
qed

lemmas action_defs = createAction_def prepared.extend_def action.fields_def

lemma fulfilled_sel [simp]:
  "payload (fulfilled tp (p, rid, a, m)) = p"
  "error (fulfilled tp (p, rid, a, m)) = None"
  "type (fulfilled tp (p, rid, a, m)) = tp @ ''/fulfilled''"
  "meta (fulfilled tp (p, rid, a, m)) =
     JObj (literal (spread (if truthy m then m else JObj []))
       [(''arg'', a), (''requestId'', JStr rid), (''requestStatus'', JStr ''fulfilled'')])"
  by (simp_all add: fulfilled_def action_defs)

lemma pending_sel [simp]:
  "payload (pending tp (rid, a, m)) = JUndefined"
  "error (pending tp (rid, a, m)) = None"
  "type (pending tp (rid, a, m)) = tp @ ''/pending''"
  "meta (pending tp (rid, a, m)) =
     JObj (literal (spread (if truthy m then m else JObj []))
       [(''arg'', a), (''requestId'', JStr rid), (''requestStatus'', JStr ''pending'')])"
  by (simp_all add: pending_def action_defs)

lemma rejectedAction_sel [simp]:
  "payload (rejectedAction tp se (e, rid, a, p, m)) = p"
  "error (rejectedAction tp se (e, rid, a, p, m)) = Some se"
  "type (rejectedAction tp se (e, rid, a, p, m)) = tp @ ''/rejected''"
  "meta (rejectedAction tp se (e, rid, a, p, m)) =
     JObj (literal (spread (if truthy m then m else JObj []))
       [(''arg'', a), (''requestId'', JStr rid),
        (''rejectedWithValue'', JBool (truthy p)),
        (''requestStatus'', JStr ''rejected''),
        (''aborted'', JBool (get e ''name'' = JStr ''AbortError'')),
        (''condition'', JBool (get e ''name'' = JStr ''ConditionError''))])"
  by (simp_all add: rejectedAction_def action_defs)

lemma rejected_returns:
  "rejected opts tp (e, rid, a, p, m) = Inr act \<longleftrightarrow>
     (\<exists>se. serialized opts e = Inr se \<and> act = rejectedAction tp se (e, rid, a, p, m))"
  by (auto simp: rejected_def split: sum.splits)

lemma rejected_throws:
  "rejected opts tp (e, rid, a, p, m) = Inl thrown \<longleftrightarrow> serialized opts e = Inl thrown"
  by (auto simp: rejected_def split: sum.splits)

lemma serialized_default [simp]:
  "serialized None e = Inr (miniSerializeError (if truthy e then e else JStr ''Rejected''))"
  by (simp add: serialized_def)

text \<open>
  C10. Whatever metadata the caller supplies (the result of \<open>getPendingMeta\<close>, the
  meta of \<^verbatim>\<open>fulfillWithValue\<close> or of \<^verbatim>\<open>rejectWithValue\<close>), the fields the engine
  writes are the engine's: \<open>arg\<close>, \<open>requestId\<close> and \<open>requestStatus\<close> of every
  action, and \<open>rejectedWithValue\<close>, \<open>aborted\<close> and \<open>condition\<close> of a rejected one,
  have the values the engine computes, because the caller's meta is spread first. (A
  rejected action is built whenever \<open>serializeError\<close> returns.)
\<close>

theorem engine_meta_not_overwritten:
  "props (meta (pending tp (rid, a, m))) ''arg'' = Some a \<and>
   props (meta (pending tp (rid, a, m))) ''requestId'' = Some (JStr rid) \<and>
   props (meta (pending tp (rid, a, m))) ''requestStatus'' = Some (JStr ''pending'') \<and>
   props (meta (fulfilled tp (p, rid, a, m))) ''arg'' = Some a \<and>
   props (meta (fulfilled tp (p, rid, a, m))) ''requestId'' = Some (JStr rid) \<and>
   props (meta (fulfilled tp (p, rid, a, m))) ''requestStatus'' = Some (JStr ''fulfilled'') \<and>
   (\<forall>act. rejected opts tp (e, rid, a, p, m) = Inr act \<longrightarrow>
      props (meta act) ''arg'' = Some a \<and>
      props (meta act) ''requestId'' = Some (JStr rid) \<and>
      props (meta act) ''requestStatus'' = Some (JStr ''rejected'') \<and>
      props (meta act) ''rejectedWithValue'' = Some (JBool (truthy p)) \<and>
      props (meta act) ''aborted'' = Some (JBool (get e ''name'' = JStr ''AbortError'')) \<and>
      props (meta act) ''condition'' = Some (JBool (get e ''name'' = JStr ''ConditionError''))) \<and>
   ((\<exists>se. serialized opts e = Inr se) \<longrightarrow> (\<exists>act. rejected opts tp (e, rid, a, p, m) = Inr act))"
  by (auto simp: map_of_literal rejected_returns)

theorem engine_meta_not_overwritten_witness:
  "(\<exists>act. rejected None ''t''
      (JNull, ''r1'', JNum 1, JUndefined,
       JObj [(''arg'', JStr ''x''), (''requestId'', JStr ''y''),
             (''rejectedWithValue'', JBool True), (''aborted'', JBool True)]) = Inr act \<and>
     props (meta act) ''rejectedWithValue'' = Some (JBool False) \<and>
     props (meta act) ''aborted'' = Some (JBool False) \<and>
     props (meta act) ''requestId'' = Some (JStr ''r1'') \<and>
     props (meta act) ''arg'' = Some (JNum 1)) \<and>
   props (meta (pending ''t'' (''r1'', JNum 1,
      JObj [(''arg'', JStr ''x''), (''requestStatus'', JStr ''done'')]))) ''requestStatus'' =
     Some (JStr ''pending'')"
proof -
  let ?m = "JObj [(''arg'', JStr ''x''), (''requestId'', JStr ''y''),
                  (''rejectedWithValue'', JBool True), (''aborted'', JBool True)]"
  have s: "\<exists>se. serialized None JNull = Inr se" by simp
  from engine_meta_not_overwritten
    [where tp = "''t''" and rid = "''r1''" and a = "JNum 1" and p = JUndefined
       and opts = None and e = JNull and m = ?m] s
  obtain act where act: "rejected None ''t'' (JNull, ''r1'', JNum 1, JUndefined, ?m) = Inr act"
    by blast
  from engine_meta_not_overwritten
    [where tp = "''t''" and rid = "''r1''" and a = "JNum 1" and p = JUndefined
       and opts = None and e = JNull and m = ?m] act
  have "props (meta act) ''rejectedWithValue'' = Some (JBool (truthy JUndefined)) \<and>
        props (meta act) ''aborted'' = Some (JBool (get JNull ''name'' = JStr ''AbortError'')) \<and>
        props (meta act) ''requestId'' = Some (JStr ''r1'') \<and>
        props (meta act) ''arg'' = Some (JNum 1)"
    by blast
  then have r: "props (meta act) ''rejectedWithValue'' = Some (JBool False) \<and>
        props (meta act) ''aborted'' = Some (JBool False) \<and>
        props (meta act) ''requestId'' = Some (JStr ''r1'') \<and>
        props (meta act) ''arg'' = Some (JNum 1)"
    by (simp add: get_def)
  have "props (meta (pending ''t'' (''r1'', JNum 1,
      JObj [(''arg'', JStr ''x''), (''requestStatus'', JStr ''done'')]))) ''requestStatus'' =
     Some (JStr ''pending'')"
    using engine_meta_not_overwritten
      [where tp = "''t''" and rid = "''r1''" and a = "JNum 1"
         and m = "JObj [(''arg'', JStr ''x''), (''requestStatus'', JStr ''done'')]"]
    by blast
  then show ?thesis using act r by blast
qed

section \<open>The states an invocation reaches\<close>

text \<open>
  A call either throws what \<open>idGenerator\<close> threw, or goes on as the invocation of its
  thunk, environment and argument with the request id that was generated.
\<close>

lemma invoke_cases:
  "invoke th en a = Inl thrown \<longleftrightarrow> generateId th en a = Inl thrown"
  "invoke th en a = Inr c \<longleftrightarrow>
     generateId th en a = Inr (requestId c) \<and> the_thunk c = th \<and> the_env c = en \<and> arg c = a"
  by (auto simp: invoke_def split: sum.splits)


lemma steps_simps [simp]:
  "steps c [] s = s"
  "steps c (ev # evs) s = steps c evs (step c ev s)"
  "steps c (evs @ evs') s = steps c evs' (steps c evs s)"
  by (simp_all add: steps_def)

lemma run_append: "run c (evs @ evs') = steps c evs' (run c evs)"
  by (simp add: run_def)

lemma steps_invariant:
  assumes "P s" and "\<And>s ev. P s \<Longrightarrow> ev \<in> set evs \<Longrightarrow> P (step c ev s)"
  shows "P (steps c evs s)"
  using assms by (induction evs arbitrary: s) auto

lemma abort_fields [simp]:
  "queue (abort c r s) =
     (if started s \<and> hasAbortController (the_env c) \<and> abortedPromise s = None \<and> raceCreated s
      then queue s @ [RaceAborted (abortError r)] else queue s)"
  "abortedPromise (abort c r s) =
     (if started s \<and> hasAbortController (the_env c) \<and> abortedPromise s = None
      then Some (abortError r) else abortedPromise s)"
  "started (abort c r s) = started s"
  "raceCreated (abort c r s) = raceCreated s"
  "raceSettled (abort c r s) = raceSettled s"
  "conditionPromise (abort c r s) = conditionPromise s"
  "creatorPromise (abort c r s) = creatorPromise s"
  "phase (abort c r s) = phase s"
  "dispatched (abort c r s) = dispatched s"
  "creatorCalls (abort c r s) = creatorCalls s"
  "finalAction (abort c r s) = finalAction s"
  "promise (abort c r s) = promise s"
  by (simp_all add: abort_def controller_abort_def enqueue_def Let_def)

lemma foldl_abort_fields [simp]:
  "started (foldl (\<lambda>s r. abort c r s) s rs) = started s"
  "raceCreated (foldl (\<lambda>s r. abort c r s) s rs) = raceCreated s"
  "raceSettled (foldl (\<lambda>s r. abort c r s) s rs) = raceSettled s"
  "conditionPromise (foldl (\<lambda>s r. abort c r s) s rs) = conditionPromise s"
  "creatorPromise (foldl (\<lambda>s r. abort c r s) s rs) = creatorPromise s"
  "phase (foldl (\<lambda>s r. abort c r s) s rs) = phase s"
  "dispatched (foldl (\<lambda>s r. abort c r s) s rs) = dispatched s"
  "creatorCalls (foldl (\<lambda>s r. abort c r s) s rs) = creatorCalls s"
  "finalAction (foldl (\<lambda>s r. abort c r s) s rs) = finalAction s"
  "promise (foldl (\<lambda>s r. abort c r s) s rs) = promise s"
  by (induction rs arbitrary: s; simp)+

lemma foldl_abort_queue [simp]:
  "\<not> raceCreated s \<Longrightarrow> queue (foldl (\<lambda>s r. abort c r s) s rs) = queue s"
  by (induction rs arbitrary: s) simp_all

lemma finish_fields [simp]:
  "phase (finish c a s) = Finished"
  "finalAction (finish c a s) = Some a"
  "promise (finish c a s) \<noteq> None"
  "queue (finish c a s) = queue s"
  "started (finish c a s) = started s"
  "raceCreated (finish c a s) = raceCreated s"
  "raceSettled (finish c a s) = raceSettled s"
  "conditionPromise (finish c a s) = conditionPromise s"
  "creatorPromise (finish c a s) = creatorPromise s"
  "creatorCalls (finish c a s) = creatorCalls s"
  "abortedPromise (finish c a s) = abortedPromise s"
  "abortReason (finish c a s) = abortReason s"
  by (simp_all add: finish_def Let_def split: option.splits)

lemma promise_finish_ex [simp]: "\<exists>y. promise (finish c a s) = Some y"
  using finish_fields(3) [of c a s] by (simp del: finish_fields)

lemma fail_fields [simp]:
  "phase (fail e s) = Finished"
  "finalAction (fail e s) = finalAction s"
  "promise (fail e s) = Some (Inl e)"
  "queue (fail e s) = queue s"
  "started (fail e s) = started s"
  "raceCreated (fail e s) = raceCreated s"
  "raceSettled (fail e s) = raceSettled s"
  "conditionPromise (fail e s) = conditionPromise s"
  "creatorPromise (fail e s) = creatorPromise s"
  "creatorCalls (fail e s) = creatorCalls s"
  "abortedPromise (fail e s) = abortedPromise s"
  "abortReason (fail e s) = abortReason s"
  "dispatched (fail e s) = dispatched s"
  by (simp_all add: fail_def)

lemma promise_catch_ex [simp]: "\<exists>y. promise (catch c e s) = Some y"
  by (simp add: catch_def split: sum.splits)

lemma catch_fields [simp]:
  "phase (catch c e s) = Finished"
  "finalAction (catch c e s) =
     (case catch_action c e of Inl thrown \<Rightarrow> finalAction s | Inr a \<Rightarrow> Some a)"
  "promise (catch c e s) \<noteq> None"
  "queue (catch c e s) = queue s"
  "started (catch c e s) = started s"
  "raceCreated (catch c e s) = raceCreated s"
  "raceSettled (catch c e s) = raceSettled s"
  "conditionPromise (catch c e s) = conditionPromise s"
  "creatorPromise (catch c e s) = creatorPromise s"
  "creatorCalls (catch c e s) = creatorCalls s"
  "abortedPromise (catch c e s) = abortedPromise s"
  "abortReason (catch c e s) = abortReason s"
  by (simp_all add: catch_def split: sum.splits)

lemma wf_call_creator:
  assumes "phase s = AwaitingCondition" "started s" "\<not> raceCreated s" "\<not> raceSettled s"
    "creatorPromise s = None" "conditionPromise s = None" "queue s = []"
    "promise s = None" "finalAction s = None"
  shows "wf_state (call_creator c s)"
  using assms
  by (simp add: call_creator_def Let_def wf_state_def create_race_def enqueue_def
      split: ret.splits option.splits)

lemma wf_after_condition:
  assumes "phase s = AwaitingCondition" "\<not> raceCreated s" "\<not> raceSettled s"
    "creatorPromise s = None" "conditionPromise s = None" "queue s = []"
    "promise s = None" "finalAction s = None"
  shows "wf_state (after_condition c v s)"
proof (cases "v = JBool False")
  case True
  then show ?thesis using assms by (simp add: after_condition_def wf_state_def)
next
  case False
  show ?thesis
  proof (cases "pendingAction c")
    case (Inl thrown)
    then show ?thesis using False assms
      by (simp add: after_condition_def Let_def wf_state_def)
  next
    case (Inr p)
    show ?thesis
    proof (cases "dispatch (the_env c) p")
      case None
      then show ?thesis using False Inr assms
        by (simp add: after_condition_def Let_def wf_call_creator)
    next
      case (Some e)
      then show ?thesis using False Inr assms
        by (simp add: after_condition_def Let_def wf_state_def)
    qed
  qed
qed

lemma wf_actionCreator: "wf_state (actionCreator c)"
proof -
  have init: "wf_state (initial\<lparr>conditionPromise := Some p\<rparr>)" for p
    by (simp add: wf_state_def initial_def)
  have ac: "wf_state (after_condition c v initial)" for v
    by (rule wf_after_condition) (simp_all add: initial_def)
  have ct: "wf_state (catch c e initial)" for e
    by (simp add: wf_state_def initial_def)
  show ?thesis
    by (simp add: actionCreator_def init ac ct split: option.splits ret.splits sum.splits)
qed

lemma enqueue_fields [simp]:
  "queue (enqueue j s) = queue s @ [j]"
  "phase (enqueue j s) = phase s"
  "started (enqueue j s) = started s"
  "raceCreated (enqueue j s) = raceCreated s"
  "raceSettled (enqueue j s) = raceSettled s"
  "conditionPromise (enqueue j s) = conditionPromise s"
  "creatorPromise (enqueue j s) = creatorPromise s"
  "dispatched (enqueue j s) = dispatched s"
  "creatorCalls (enqueue j s) = creatorCalls s"
  "finalAction (enqueue j s) = finalAction s"
  "promise (enqueue j s) = promise s"
  "abortedPromise (enqueue j s) = abortedPromise s"
  "abortReason (enqueue j s) = abortReason s"
  by (simp_all add: enqueue_def)

lemma wf_abort: "wf_state s \<Longrightarrow> wf_state (abort c r s)"
  by (cases "phase s") (auto simp: wf_state_def)

lemma wf_condition_settles: "wf_state s \<Longrightarrow> wf_state (step c ConditionSettles s)"
  by (cases "phase s") (auto simp: wf_state_def split: option.splits settlement.splits)

lemma wf_creator_settles: "wf_state s \<Longrightarrow> wf_state (step c CreatorSettles s)"
  by (cases "phase s") (auto simp: wf_state_def split: option.splits settlement.splits)

lemma wf_settle_race:
  assumes "wf_state s" "queue s = j # js" "\<not> is_resume_race j" "\<not> is_resume_condition j"
    "phase s \<noteq> AwaitingCondition"
  shows "wf_state (settle_race r (s\<lparr>queue := js\<rparr>))"
  using assms by (cases "phase s") (auto simp: wf_state_def settle_race_def)

lemma wf_microtask: 
  assumes "wf_state s"
  shows "wf_state (step c Microtask s)"
proof (cases "queue s")
  case Nil
  then show ?thesis using assms by simp
next
  case (Cons j js)
  show ?thesis
  proof (cases "phase s")
    case AwaitingCondition
    with assms Cons obtain r where j: "j = ResumeAfterCondition r" and js: "js = []"
      by (cases j) (auto simp: wf_state_def split: if_splits)
    have pre: "phase (s\<lparr>queue := []\<rparr>) = AwaitingCondition" "\<not> raceCreated (s\<lparr>queue := []\<rparr>)"
      "\<not> raceSettled (s\<lparr>queue := []\<rparr>)" "creatorPromise (s\<lparr>queue := []\<rparr>) = None"
      "conditionPromise (s\<lparr>queue := []\<rparr>) = None" "queue (s\<lparr>queue := []\<rparr>) = []"
      "promise (s\<lparr>queue := []\<rparr>) = None" "finalAction (s\<lparr>queue := []\<rparr>) = None"
      using assms AwaitingCondition Cons by (auto simp: wf_state_def split: if_splits)
    show ?thesis
    proof (cases r)
      case (Inl e)
      then show ?thesis using Cons j js pre by (simp add: wf_state_def)
    next
      case (Inr v)
      then show ?thesis using Cons j js wf_after_condition [OF pre] by simp
    qed
  next
    case Racing
    show ?thesis
    proof (cases j)
      case (ResumeAfterCondition r)
      then show ?thesis using assms Cons Racing by (simp add: wf_state_def)
    next
      case (ThenCallback r)
      then show ?thesis using assms Cons Racing
        by (cases r) (auto simp: wf_state_def)
    next
      case (RaceAborted e)
      then show ?thesis using assms Cons Racing wf_settle_race [where s = s and j = j and js = js and r = "Inl e"] by simp
    next
      case (RaceSettled r)
      then show ?thesis using assms Cons Racing wf_settle_race [where s = s and j = j and js = js and r = r] by simp
    next
      case (ResumeAfterRace r)
      then show ?thesis using assms Cons Racing
        by (cases r) (auto simp: wf_state_def list_ex_iff filter_empty_conv split: if_splits)
    qed
  next
    case Finished
    show ?thesis
    proof (cases j)
      case (ResumeAfterCondition r)
      then show ?thesis using assms Cons Finished by (simp add: wf_state_def)
    next
      case (ThenCallback r)
      then show ?thesis using assms Cons Finished
        by (cases r) (auto simp: wf_state_def)
    next
      case (RaceAborted e)
      then show ?thesis using assms Cons Finished wf_settle_race [where s = s and j = j and js = js and r = "Inl e"] by simp
    next
      case (RaceSettled r)
      then show ?thesis using assms Cons Finished wf_settle_race [where s = s and j = j and js = js and r = r] by simp
    next
      case (ResumeAfterRace r)
      then show ?thesis using assms Cons Finished by (simp add: wf_state_def)
    qed
  qed
qed

lemma wf_step: "wf_state s \<Longrightarrow> wf_state (step c ev s)"
  using wf_abort wf_condition_settles wf_creator_settles wf_microtask
  by (cases ev) simp_all

lemma wf_steps: "wf_state s \<Longrightarrow> wf_state (steps c evs s)"
  by (rule steps_invariant) (simp_all add: wf_step)

lemma wf_run: "wf_state (run c evs)"
  by (simp add: run_def wf_steps wf_actionCreator)

lemma settle_race_fields [simp]:
  "phase (settle_race r s) = phase s"
  "started (settle_race r s) = started s"
  "raceCreated (settle_race r s) = raceCreated s"
  "conditionPromise (settle_race r s) = conditionPromise s"
  "creatorPromise (settle_race r s) = creatorPromise s"
  "dispatched (settle_race r s) = dispatched s"
  "creatorCalls (settle_race r s) = creatorCalls s"
  "finalAction (settle_race r s) = finalAction s"
  "promise (settle_race r s) = promise s"
  "abortedPromise (settle_race r s) = abortedPromise s"
  "abortReason (settle_race r s) = abortReason s"
  "raceSettled (settle_race r s) = True"
  "queue (settle_race r s) = (if raceSettled s then queue s else queue s @ [ResumeAfterRace r])"
  by (simp_all add: settle_race_def)

text \<open>Once the function has returned or thrown, nothing it produced changes any more.\<close>

lemma finished_step:
  assumes "wf_state s" "phase s = Finished"
  shows "phase (step c ev s) = Finished \<and> promise (step c ev s) = promise s \<and>
         finalAction (step c ev s) = finalAction s \<and> dispatched (step c ev s) = dispatched s \<and>
         creatorCalls (step c ev s) = creatorCalls s"
proof (cases ev)
  case (CallAbort r)
  then show ?thesis using assms by simp
next
  case ConditionSettles
  then show ?thesis using assms by (simp add: wf_state_def)
next
  case CreatorSettles
  then show ?thesis using assms by (simp split: option.splits settlement.splits)
next
  case Microtask
  show ?thesis
  proof (cases "queue s")
    case Nil
    then show ?thesis using Microtask assms by simp
  next
    case (Cons j js)
    then show ?thesis using Microtask assms
      by (cases "(c, j, s)" rule: run_job.cases) (auto simp: wf_state_def)
  qed
qed

lemma finished_steps:
  assumes "wf_state s" "phase s = Finished"
  shows "phase (steps c evs s) = Finished \<and> promise (steps c evs s) = promise s \<and>
         finalAction (steps c evs s) = finalAction s \<and> dispatched (steps c evs s) = dispatched s \<and>
         creatorCalls (steps c evs s) = creatorCalls s"
  using assms
proof (induction evs arbitrary: s)
  case Nil
  then show ?case by simp
next
  case (Cons ev evs)
  from finished_step [OF Cons.prems, of c ev] wf_step [OF Cons.prems(1), of c ev]
  show ?case using Cons.IH [of "step c ev s"] by simp
qed

lemma work_enqueue [simp]: "work (enqueue j s) = work s + weight j"
  by (simp add: work_def)

lemma work_settle_race:
  "work (settle_race r s) = (if raceSettled s then work s else work s + 1)"
  by (simp add: settle_race_def work_def enqueue_def)

lemma racing_queue_nonempty:
  assumes "wf_state s" "phase s = Racing" "can_progress s"
  shows "queue s \<noteq> []"
  using assms by (cases "raceSettled s") (auto simp: wf_state_def can_progress_def)

lemma racing_microtask:
  assumes "wf_state s" "phase s = Racing" "can_progress s"
  shows "phase (step c Microtask s) = Finished \<or>
         (phase (step c Microtask s) = Racing \<and> can_progress (step c Microtask s) \<and>
          work (step c Microtask s) < work s)"
proof -
  obtain j js where q: "queue s = j # js"
    using racing_queue_nonempty [OF assms] by (cases "queue s") auto
  have w: "work s = weight j + work (s\<lparr>queue := js\<rparr>)"
    by (simp add: work_def q)
  show ?thesis
    using assms q w
    by (cases "(c, j, s)" rule: run_job.cases)
       (auto simp: wf_state_def can_progress_def work_settle_race)
qed

lemma can_progress_finishes:
  assumes "wf_state s" "phase s = Racing" "can_progress s"
  shows "\<exists>n. phase (steps c (replicate n Microtask) s) = Finished"
  using assms
proof (induction "work s" arbitrary: s rule: less_induct)
  case less
  let ?s' = "step c Microtask s"
  from racing_microtask [OF less.prems, of c]
  show ?case
  proof
    assume "phase ?s' = Finished"
    then have "phase (steps c (replicate 1 Microtask) s) = Finished" by simp
    then show ?thesis by blast
  next
    assume r: "phase ?s' = Racing \<and> can_progress ?s' \<and> work ?s' < work s"
    then obtain n where "phase (steps c (replicate n Microtask) ?s') = Finished"
      using less.hyps [of ?s'] wf_step [OF less.prems(1), of c Microtask] by blast
    then have "phase (steps c (replicate (Suc n) Microtask) s) = Finished" by simp
    then show ?thesis by blast
  qed
qed

lemma racing_finishes:
  assumes "wf_state s" "phase s = Racing" "creatorPromise s = None"
  shows "\<exists>n. phase (steps c (replicate n Microtask) s) = Finished"
proof -
  have "can_progress s"
    using assms by (cases "raceSettled s") (auto simp: wf_state_def can_progress_def list_ex_iff)
  then show ?thesis using can_progress_finishes assms by blast
qed

lemma settling_step: "settling s \<Longrightarrow> wf_state s \<Longrightarrow> promises_settle c \<Longrightarrow> settling (step c ev s)"
proof (cases ev)
  case (CallAbort r)
  assume "settling s" then show ?thesis using CallAbort by (simp add: settling_def)
next
  case ConditionSettles
  assume "settling s" then show ?thesis using ConditionSettles
    by (auto simp: settling_def split: option.splits settlement.splits)
next
  case CreatorSettles
  assume "settling s" then show ?thesis using CreatorSettles
    by (auto simp: settling_def split: option.splits settlement.splits)
next
  case Microtask
  assume a: "settling s" "wf_state s" "promises_settle c"
  show ?thesis
  proof (cases "queue s")
    case Nil
    then show ?thesis using Microtask a by simp
  next
    case (Cons j js)
    then show ?thesis using Microtask a
      by (cases "(c, j, s)" rule: run_job.cases)
         (auto simp: settling_def promises_settle_def after_condition_def call_creator_def
            create_race_def Let_def split: option.splits ret.splits sum.splits)
  qed
qed

lemma settling_actionCreator: "promises_settle c \<Longrightarrow> settling (actionCreator c)"
  by (auto simp: settling_def promises_settle_def actionCreator_def after_condition_def
        call_creator_def create_race_def initial_def Let_def split: option.splits ret.splits sum.splits)

lemma settling_run: "promises_settle c \<Longrightarrow> settling (run c evs)"
proof (induction evs rule: rev_induct)
  case Nil
  then show ?case by (simp add: run_def settling_actionCreator)
next
  case (snoc ev evs)
  then show ?case using settling_step [of "run c evs" c ev] wf_run [of c evs]
    by (simp add: run_append)
qed

lemma leaves_condition:
  assumes "wf_state s" "settling s"
  shows "phase (step c Microtask (step c ConditionSettles s)) \<noteq> AwaitingCondition"
proof (cases "phase s = AwaitingCondition")
  case True
  show ?thesis
  proof (cases "conditionPromise s")
    case None
    then obtain r where "queue s = [ResumeAfterCondition r]"
      using assms True
      by (cases "queue s"; cases "hd (queue s)") (auto simp: wf_state_def)
    then show ?thesis using None
      by (cases r) (auto simp: after_condition_def call_creator_def create_race_def Let_def
          split: option.splits ret.splits sum.splits)
  next
    case (Some p)
    then have "queue s = []" using assms True by (auto simp: wf_state_def)
    then show ?thesis using Some assms
      by (cases p) (auto simp: settling_def after_condition_def call_creator_def create_race_def Let_def
          split: option.splits ret.splits sum.splits)
  qed
next
  case False
  have "phase (step c ConditionSettles s) = phase s" using False assms
    by (auto simp: wf_state_def)
  moreover have "wf_state (step c ConditionSettles s)" using assms wf_step by blast
  moreover have "phase (step c Microtask t) \<noteq> AwaitingCondition"
    if "wf_state t" "phase t \<noteq> AwaitingCondition" for t
  proof (cases "queue t")
    case Nil
    then show ?thesis using that by simp
  next
    case (Cons j js)
    then show ?thesis using that
      by (cases "(c, j, t)" rule: run_job.cases) (auto simp: wf_state_def)
  qed
  ultimately show ?thesis using False by metis
qed

text \<open>
  Whatever has happened so far: once the promises of the callbacks have settled and the
  event loop keeps running, the promise returned to the caller settles.
\<close>

lemma promise_settles:
  assumes "promises_settle c"
  shows "\<exists>n. promise (run c (evs @ [ConditionSettles, Microtask, CreatorSettles]
                         @ replicate n Microtask)) \<noteq> None"
proof -
  let ?s0 = "run c evs"
  let ?s2 = "step c Microtask (step c ConditionSettles ?s0)"
  let ?s3 = "step c CreatorSettles ?s2"
  have wf0: "wf_state ?s0" by (rule wf_run)
  have st0: "settling ?s0" using assms by (rule settling_run)
  have wf2: "wf_state ?s2" using wf0 wf_step by blast
  have st2: "settling ?s2" using st0 wf0 assms settling_step wf_step by blast
  have wf3: "wf_state ?s3" using wf2 wf_step by blast
  have ph2: "phase ?s2 \<noteq> AwaitingCondition" using leaves_condition [OF wf0 st0] .
  have ph3: "phase ?s3 = phase ?s2"
    by (simp split: option.splits settlement.splits)
  have cp3: "creatorPromise ?s3 = None" using st2
    by (auto simp: settling_def split: option.splits settlement.splits)
  have run3: "run c (evs @ [ConditionSettles, Microtask, CreatorSettles] @ replicate n Microtask)
                = steps c (replicate n Microtask) ?s3" for n
    by (simp add: run_append)
  show ?thesis
  proof (cases "phase ?s3")
    case AwaitingCondition
    then show ?thesis using ph2 ph3 by simp
  next
    case Racing
    then obtain n where "phase (steps c (replicate n Microtask) ?s3) = Finished"
      using racing_finishes [OF wf3 _ cp3] by blast
    moreover have "wf_state (steps c (replicate n Microtask) ?s3)" using wf3 wf_steps by blast
    ultimately have "promise (steps c (replicate n Microtask) ?s3) \<noteq> None"
      by (simp add: wf_state_def)
    then show ?thesis using run3 by metis
  next
    case Finished
    then have "promise (steps c (replicate 0 Microtask) ?s3) \<noteq> None"
      using wf3 by (simp add: wf_state_def)
    then show ?thesis using run3 by metis
  qed
qed

section \<open>Leaving the condition\<close>


lemma initial_fields [simp]:
  "started initial = False" "abortReason initial = None" "abortedPromise initial = None"
  "raceCreated initial = False" "raceSettled initial = False"
  "conditionPromise initial = None" "creatorPromise initial = None"
  "phase initial = AwaitingCondition" "queue initial = []" "dispatched initial = []"
  "creatorCalls initial = 0" "finalAction initial = None" "promise initial = None"
  by (simp_all add: initial_def)

lemma awaiting_steps:
  "step c (CallAbort r) (initial\<lparr>conditionPromise := Some p\<rparr>) = initial\<lparr>conditionPromise := Some p\<rparr>"
  "step c CreatorSettles (initial\<lparr>conditionPromise := Some p\<rparr>) = initial\<lparr>conditionPromise := Some p\<rparr>"
  "step c Microtask (initial\<lparr>conditionPromise := Some p\<rparr>) = initial\<lparr>conditionPromise := Some p\<rparr>"
  "step c ConditionSettles (initial\<lparr>conditionPromise := Some p\<rparr>) =
     (case settlement_result p of
        Some r \<Rightarrow> initial\<lparr>queue := [ResumeAfterCondition r]\<rparr>
      | None \<Rightarrow> initial\<lparr>conditionPromise := Some p\<rparr>)"
  "step c (CallAbort r) (initial\<lparr>queue := [ResumeAfterCondition rc]\<rparr>) = initial\<lparr>queue := [ResumeAfterCondition rc]\<rparr>"
  "step c CreatorSettles (initial\<lparr>queue := [ResumeAfterCondition rc]\<rparr>) = initial\<lparr>queue := [ResumeAfterCondition rc]\<rparr>"
  "step c ConditionSettles (initial\<lparr>queue := [ResumeAfterCondition rc]\<rparr>) = initial\<lparr>queue := [ResumeAfterCondition rc]\<rparr>"
  "step c Microtask (initial\<lparr>queue := [ResumeAfterCondition rc]\<rparr>) = run_job c (ResumeAfterCondition rc) initial"
  by (simp_all add: abort_def enqueue_def initial_def split: settlement.splits)

text \<open>
  Until the condition is decided, the state is one of two: the promise of \<open>condition\<close>
  is pending, or the resumption is queued. From then on the run continues from \<open>entry\<close>.
\<close>

lemma gate_phase:
  "(\<exists>p. conditionResult c = ReturnsPromise p \<and>
        (run c evs = initial\<lparr>conditionPromise := Some p\<rparr> \<or>
         (\<exists>r. settlement_result p = Some r \<and> run c evs = initial\<lparr>queue := [ResumeAfterCondition r]\<rparr>)))
   \<or> (\<exists>evs'. set evs' \<subseteq> set evs \<and> run c evs = steps c evs' (entry c))"
proof (induction evs rule: rev_induct)
  case Nil
  show ?case
  proof (cases "conditionResult c")
    case (ReturnsPromise p)
    then show ?thesis by (simp add: run_def actionCreator_def)
  next
    case (Returns v)
    then have "run c [] = steps c [] (entry c)" by (simp add: run_def actionCreator_def entry_def)
    then show ?thesis by blast
  next
    case (Throws e)
    then have "run c [] = steps c [] (entry c)" by (simp add: run_def actionCreator_def entry_def)
    then show ?thesis by blast
  qed
next
  case (snoc ev evs)
  from snoc.IH show ?case
  proof (elim disjE exE conjE)
    fix p assume p: "conditionResult c = ReturnsPromise p"
      and s: "run c evs = initial\<lparr>conditionPromise := Some p\<rparr>"
    show ?thesis
    proof (cases ev)
      case ConditionSettles
      then show ?thesis using p s
        by (cases p) (simp_all add: run_append awaiting_steps del: step.simps)
    qed (use p s in \<open>simp_all add: run_append awaiting_steps del: step.simps\<close>)
  next
    fix p r assume p: "conditionResult c = ReturnsPromise p"
      and r: "settlement_result p = Some r"
      and s: "run c evs = initial\<lparr>queue := [ResumeAfterCondition r]\<rparr>"
    show ?thesis
    proof (cases ev)
      case Microtask
      then have "run c (evs @ [ev]) = steps c [] (entry c)"
        using p r s by (simp add: run_append awaiting_steps entry_def del: step.simps)
      then show ?thesis by (metis empty_subsetI list.set(1))
    qed (use p r s in \<open>simp_all add: run_append awaiting_steps del: step.simps\<close>)
  next
    fix evs' assume "set evs' \<subseteq> set evs" "run c evs = steps c evs' (entry c)"
    then have "set (evs' @ [ev]) \<subseteq> set (evs @ [ev])"
      "run c (evs @ [ev]) = steps c (evs' @ [ev]) (entry c)"
      by (auto simp: run_append)
    then show ?thesis by blast
  qed
qed

lemma gate_completion:
  assumes "conditionResult c \<noteq> ReturnsPromise Never"
  shows "\<exists>evs'. set evs' \<subseteq> set evs \<union> {ConditionSettles, Microtask} \<and>
           run c (evs @ [ConditionSettles, Microtask]) = steps c evs' (entry c)"
  using gate_phase [of c evs]
proof (elim disjE exE conjE)
  fix p assume p: "conditionResult c = ReturnsPromise p"
    and s: "run c evs = initial\<lparr>conditionPromise := Some p\<rparr>"
  then obtain r where "settlement_result p = Some r" using assms by (cases p) auto
  then have "run c (evs @ [ConditionSettles, Microtask]) = steps c [] (entry c)"
    using p s by (simp add: run_append awaiting_steps entry_def del: step.simps)
  then show ?thesis by (metis empty_subsetI list.set(1))
next
  fix p r assume p: "conditionResult c = ReturnsPromise p"
    and r: "settlement_result p = Some r"
    and s: "run c evs = initial\<lparr>queue := [ResumeAfterCondition r]\<rparr>"
  then have "run c (evs @ [ConditionSettles, Microtask]) = steps c [] (entry c)"
    by (simp add: run_append awaiting_steps entry_def del: step.simps)
  then show ?thesis by (metis empty_subsetI list.set(1))
next
  fix evs' assume "set evs' \<subseteq> set evs" "run c evs = steps c evs' (entry c)"
  then have "set (evs' @ [ConditionSettles, Microtask]) \<subseteq> set evs \<union> {ConditionSettles, Microtask}"
    "run c (evs @ [ConditionSettles, Microtask]) = steps c (evs' @ [ConditionSettles, Microtask]) (entry c)"
    by (auto simp: run_append)
  then show ?thesis by blast
qed

section \<open>What the engine produces\<close>


lemma produced_ok_abort: "produced_ok D F s \<Longrightarrow> produced_ok D F (abort c r s)"
  by (auto simp: produced_ok_def)

lemma produced_ok_aborts:
  "produced_ok D F s \<Longrightarrow> produced_ok D F (foldl (\<lambda>s r. abort c r s) s rs)"
  by (induction rs arbitrary: s) (simp_all add: produced_ok_abort)

lemma produced_ok_finish:
  "produced_ok D F s \<Longrightarrow> F a \<Longrightarrow> D a \<Longrightarrow> produced_ok D F (finish c a s)"
  by (simp add: produced_ok_def finish_def Let_def split: option.splits)

lemma produced_ok_fail: "produced_ok D F s \<Longrightarrow> produced_ok D F (fail e s)"
  by (simp add: produced_ok_def)

lemma catch_action_cases:
  "catch_action c err = Inr a \<Longrightarrow>
   \<exists>se e p m. serialized (options (the_thunk c)) e = Inr se \<and>
      a = rejectedAction (typePrefix (the_thunk c)) se (e, requestId c, arg c, p, m)"
  by (cases err) (auto simp: catch_action_def rejected_returns)

lemma catch_action_returns:
  assumes "serializer_returns c"
  shows "\<exists>a. catch_action c err = Inr a"
proof -
  have "\<exists>a. rejected (options (the_thunk c)) tp (e, rid, ar, p, m) = Inr a" for tp e rid ar p m
    using assms by (simp add: rejected_returns serializer_returns_def)
  then show ?thesis by (cases err) (simp_all add: catch_action_def)
qed

lemma then_callback_cases:
  "then_callback c v = Inr a \<Longrightarrow>
   \<exists>p m. a = fulfilled (typePrefix (the_thunk c)) (p, requestId c, arg c, m)"
  by (cases v) (auto simp: then_callback_def)

lemma pendingAction_cases:
  "pendingAction c = Inr a \<Longrightarrow>
   \<exists>m. a = pending (typePrefix (the_thunk c)) (requestId c, arg c, m)"
  by (auto simp: pendingAction_def split: sum.splits)

lemma produced_ok_run:
  assumes D: "\<And>m. D (pending (typePrefix (the_thunk c)) (requestId c, arg c, m))"
    and FD: "\<And>a. F a \<Longrightarrow> D a"
    and Ff: "\<And>p m. F (fulfilled (typePrefix (the_thunk c)) (p, requestId c, arg c, m))"
    and Fr: "\<And>se e p m. serialized (options (the_thunk c)) e = Inr se \<Longrightarrow>
               F (rejectedAction (typePrefix (the_thunk c)) se (e, requestId c, arg c, p, m))"
  shows "produced_ok D F (run c evs)"
proof -
  have Fc: "F a" if "catch_action c err = Inr a" for err a
    using catch_action_cases [OF that] Fr by metis
  have Ft: "F a" if "then_callback c v = Inr a" for v a
    using then_callback_cases [OF that] Ff by metis
  have Dp: "D a" if "pendingAction c = Inr a" for a
    using pendingAction_cases [OF that] D by metis
  have catch: "produced_ok D F (catch c err s)" if "produced_ok D F s" for err s
  proof (cases "catch_action c err")
    case (Inl thrown)
    then show ?thesis using that by (simp add: catch_def produced_ok_fail)
  next
    case (Inr a)
    then show ?thesis using that Fc [OF Inr] FD by (simp add: catch_def produced_ok_finish)
  qed
  have creator: "produced_ok D F (call_creator c s)" if "produced_ok D F s" for s
  proof -
    let ?s2 = "foldl (\<lambda>s r. abort c r s) (s\<lparr>creatorCalls := creatorCalls s + 1\<rparr>)
      (aborts (creatorRun c))"
    have s2: "produced_ok D F ?s2"
      using that by (intro produced_ok_aborts) (simp add: produced_ok_def)
    have race: "produced_ok D F (create_race t)" if "produced_ok D F t" for t
      using that by (simp add: create_race_def produced_ok_def Let_def split: option.splits)
    show ?thesis
      using s2 catch [OF s2] race
      by (simp add: call_creator_def Let_def produced_ok_def split: ret.splits)
  qed
  have after: "produced_ok D F (after_condition c v s)" if "produced_ok D F s" for v s
  proof -
    have s1: "produced_ok D F (s\<lparr>started := True\<rparr>)"
      using that by (simp add: produced_ok_def)
    have "produced_ok D F (s\<lparr>started := True, dispatched := dispatched s @ [p]\<rparr>)"
      if "pendingAction c = Inr p" for p
      using \<open>produced_ok D F s\<close> Dp [OF that] by (simp add: produced_ok_def)
    then show ?thesis
      using that s1 catch creator
      by (simp add: after_condition_def Let_def split: option.splits sum.splits)
  qed
  have init: "produced_ok D F (actionCreator c)"
  proof -
    have "produced_ok D F initial" by (simp add: produced_ok_def initial_def)
    moreover have "produced_ok D F (initial\<lparr>conditionPromise := Some p\<rparr>)" for p
      by (simp add: produced_ok_def initial_def)
    ultimately show ?thesis
      using after catch by (simp add: actionCreator_def split: option.splits ret.splits)
  qed
  have job: "produced_ok D F (run_job c j (s\<lparr>queue := js\<rparr>))"
    if "produced_ok D F s" "queue s = j # js" for j js s
  proof -
    have s': "produced_ok D F (s\<lparr>queue := js\<rparr>)" using that by (simp add: produced_ok_def)
    have Fj: "job_action j = Some a \<Longrightarrow> F a" for a using that by (simp add: produced_ok_def)
    show ?thesis
    proof (cases "(c, j, s\<lparr>queue := js\<rparr>)" rule: run_job.cases)
      case (1 c' v s')
      then show ?thesis using after [OF s'] by simp
    next
      case (2 c' err s')
      then show ?thesis using catch [OF s'] by simp
    next
      case (3 c' result s')
      then show ?thesis using s' Ft [of result]
        by (cases "then_callback c result") (auto simp: produced_ok_def)
    next
      case (4 c' err s')
      then show ?thesis using s' by (simp add: produced_ok_def)
    next
      case (5 c' err s')
      then show ?thesis using s' by (simp add: produced_ok_def settle_race_def)
    next
      case (6 c' r s')
      then show ?thesis using s' Fj by (cases r) (auto simp: produced_ok_def settle_race_def)
    next
      case (7 c' a s')
      then show ?thesis using produced_ok_finish [OF s', of a] Fj FD by simp
    next
      case (8 c' err s')
      then show ?thesis using catch [OF s'] by simp
    qed
  qed
  have step: "produced_ok D F (step c ev s)" if "produced_ok D F s" for ev s
  proof (cases ev)
    case (CallAbort r)
    then show ?thesis using that by (simp add: produced_ok_abort)
  next
    case ConditionSettles
    then show ?thesis using that
      by (auto simp: produced_ok_def split: option.splits settlement.splits)
  next
    case CreatorSettles
    then show ?thesis using that
      by (auto simp: produced_ok_def split: option.splits settlement.splits)
  next
    case Microtask
    then show ?thesis using that job by (cases "queue s") auto
  qed
  show ?thesis
    unfolding run_def by (rule steps_invariant) (simp_all add: init step)
qed

lemma lifecycle_meta_pending:
  "lifecycle_meta c (pending (typePrefix (the_thunk c)) (requestId c, arg c, m))"
  by (simp add: lifecycle_meta_def map_of_literal)

lemma lifecycle_meta_fulfilled:
  "lifecycle_meta c (fulfilled (typePrefix (the_thunk c)) (p, requestId c, arg c, m))"
  by (simp add: lifecycle_meta_def map_of_literal)

lemma lifecycle_meta_rejected:
  "lifecycle_meta c (rejectedAction (typePrefix (the_thunk c)) se (e, requestId c, arg c, p, m))"
  by (simp add: lifecycle_meta_def map_of_literal)

text \<open>
  C9. Every action the engine dispatches, and the final action it resolves to, carries
  \<open>arg\<close>, \<open>requestId\<close> and \<open>requestStatus\<close> in its meta; a rejected one carries
  the boolean flags \<open>aborted\<close>, \<open>condition\<close> and \<open>rejectedWithValue\<close> as well.
\<close>

theorem lifecycle_meta_always:
  "(\<forall>a \<in> set (dispatched (run c evs)). lifecycle_meta c a) \<and>
   (\<forall>a \<in> set_option (finalAction (run c evs)). lifecycle_meta c a) \<and>
   (resolved (promise (run c evs)) = None \<or>
    resolved (promise (run c evs)) = finalAction (run c evs))"
proof -
  have "produced_ok (lifecycle_meta c) (lifecycle_meta c) (run c evs)"
    by (rule produced_ok_run)
       (simp_all add: lifecycle_meta_pending lifecycle_meta_fulfilled lifecycle_meta_rejected)
  then show ?thesis
    by (auto simp: produced_ok_def list_all_iff option.pred_set)
qed

lemmas engine_defs =
  run_def actionCreator_def after_condition_def call_creator_def create_race_def
  catch_def catch_action_def fail_def finish_def abort_def controller_abort_def enqueue_def
  settle_race_def then_callback_def pendingAction_def pendingMeta_def rejected_def
  serialized_def initial_def match_def
  skipDispatch_def creatorRun_def conditionResult_def abortError_def conditionError_def
  literal_def get_def Let_def

lemmas example_defs = fetchUser7_def fetchUser_def store_def

theorem lifecycle_meta_always_witness:
  "list_all (lifecycle_meta fetchUser7)
     (dispatched (run fetchUser7 [CreatorSettles, Microtask, Microtask, Microtask])) \<and>
   length (dispatched (run fetchUser7 [CreatorSettles, Microtask, Microtask, Microtask])) = 2"
proof -
  have "length (dispatched (run fetchUser7 [CreatorSettles, Microtask, Microtask, Microtask])) = 2"
    by (simp add: engine_defs example_defs)
  then show ?thesis
    using lifecycle_meta_always [of fetchUser7 "[CreatorSettles, Microtask, Microtask, Microtask]"]
    by (simp add: list_all_iff)
qed

lemma is_final_fulfilled:
  "is_final_type c (fulfilled (typePrefix (the_thunk c)) (p, rid, a, m))"
  by (simp add: is_final_type_def match_def)

lemma is_final_rejected:
  "is_final_type c (rejectedAction (typePrefix (the_thunk c)) se (e, rid, a, p, m))"
  by (simp add: is_final_type_def match_def)

lemma final_produced: "produced_ok (\<lambda>a. True) (is_final_type c) (run c evs)"
  by (rule produced_ok_run) (simp_all add: is_final_fulfilled is_final_rejected)

lemma finish_outputs:
  "dispatched (finish c a s) = dispatched s @ (if skipDispatch c a then [] else [a])"
  "promise (finish c a s) = settled_with c a"
  by (simp_all add: finish_def settled_with_def Let_def split: option.splits)

lemma concludes_same: "concludes c (finalAction s) (promise s) s"
  by (simp add: concludes_def)

lemma concludes_finish:
  "concludes c f p (finish c a s)"
  by (auto simp: concludes_def)

lemma concludes_catch:
  "finalAction s = f \<Longrightarrow> concludes c f p (catch c e s)"
  by (auto simp: concludes_def catch_def split: sum.splits)

lemma concludes_call_creator:
  "finalAction s = f \<Longrightarrow> promise s = p \<Longrightarrow> concludes c f p (call_creator c s)"
proof -
  assume a: "finalAction s = f" "promise s = p"
  let ?s2 = "foldl (\<lambda>s r. abort c r s) (s\<lparr>creatorCalls := creatorCalls s + 1\<rparr>)
    (aborts (creatorRun c))"
  have s2: "finalAction ?s2 = f" "promise ?s2 = p" using a by simp_all
  have race: "concludes c f p (create_race t)" if "finalAction t = f" "promise t = p" for t
    using that by (simp add: concludes_def create_race_def Let_def split: option.splits)
  show ?thesis
    using s2 concludes_catch [OF s2(1), of c p] race
    by (simp add: call_creator_def Let_def split: ret.splits)
qed

lemma concludes_after_condition:
  assumes "finalAction s = f" "promise s = p"
  shows "concludes c f p (after_condition c v s)"
  using assms concludes_catch concludes_call_creator
  by (simp add: after_condition_def Let_def split: option.splits sum.splits)

lemma concludes_step: "concludes c (finalAction s) (promise s) (step c ev s)"
proof (cases ev)
  case (CallAbort r)
  then show ?thesis by (simp add: concludes_def)
next
  case ConditionSettles
  then show ?thesis by (simp add: concludes_def split: option.splits settlement.splits)
next
  case CreatorSettles
  then show ?thesis by (simp add: concludes_def split: option.splits settlement.splits)
next
  case Microtask
  show ?thesis
  proof (cases "queue s")
    case Nil
    then show ?thesis using Microtask by (simp add: concludes_def)
  next
    case (Cons j js)
    have ac: "concludes c (finalAction s) (promise s) (after_condition c v (s\<lparr>queue := js\<rparr>))"
      for v
      by (rule concludes_after_condition) simp_all
    have ct: "concludes c (finalAction s) (promise s) (catch c err (s\<lparr>queue := js\<rparr>))"
      for err
      by (rule concludes_catch) simp
    have "concludes c (finalAction s) (promise s) (run_job c j (s\<lparr>queue := js\<rparr>))"
    proof (cases "(c, j, s\<lparr>queue := js\<rparr>)" rule: run_job.cases)
      case (1 c' v s')
      then show ?thesis using ac [of v] by simp
    next
      case (2 c' err s')
      then show ?thesis using ct [of err] by simp
    next
      case (7 c' a s')
      then show ?thesis using concludes_finish by simp
    next
      case (8 c' err s')
      then show ?thesis using ct [of err] by simp
    qed (auto simp: concludes_def)
    then show ?thesis using Microtask Cons by simp
  qed
qed

lemma concludes_actionCreator: "concludes c None None (actionCreator c)"
  using concludes_catch [of initial None c None] concludes_after_condition [of initial None None c]
  by (simp add: actionCreator_def concludes_def split: ret.splits)

text \<open>
  In every state of a run: nothing has been decided; or there is a final action and the
  promise is what the code after the \<^verbatim>\<open>catch\<close> block made of it; or there is no
  final action and the promise is rejected with what \<^verbatim>\<open>rejected\<close> threw in the
  \<^verbatim>\<open>catch\<close> block.
\<close>

lemma promise_outcome:
  "finalAction (run c evs) = None \<and> promise (run c evs) = None \<or>
   (\<exists>a. finalAction (run c evs) = Some a \<and> promise (run c evs) = settled_with c a) \<or>
   finalAction (run c evs) = None \<and>
     (\<exists>err thrown. catch_action c err = Inl thrown \<and> promise (run c evs) = Some (Inl thrown))"
proof (induction evs rule: rev_induct)
  case Nil
  then show ?case
    using concludes_actionCreator [of c]
    by (auto simp: run_def concludes_def finish_outputs)
next
  case (snoc ev evs)
  let ?s = "run c evs"
  show ?case
  proof (cases "phase ?s = Finished")
    case True
    then show ?thesis
      using finished_step [OF wf_run True, of c ev] snoc by (simp add: run_append)
  next
    case False
    have "finalAction ?s = None \<and> promise ?s = None"
      using wf_run [of c evs] False by (cases "phase ?s") (auto simp: wf_state_def)
    then show ?thesis
      using concludes_step [of c ?s ev]
      by (auto simp: run_append concludes_def finish_outputs)
  qed
qed

lemma final_promise:
  "finalAction (run c evs) = Some a \<Longrightarrow> promise (run c evs) = settled_with c a"
  using promise_outcome [of c evs] by auto

lemma rejected_promise:
  assumes "promise (run c evs) = Some (Inl thrown)"
  shows "(\<exists>a. finalAction (run c evs) = Some a \<and> is_final_type c a \<and> \<not> skipDispatch c a \<and>
              dispatch (the_env c) a = Some thrown) \<or>
         finalAction (run c evs) = None \<and> (\<exists>err. catch_action c err = Inl thrown)"
  using promise_outcome [of c evs]
proof (elim disjE exE conjE)
  fix a assume a: "finalAction (run c evs) = Some a" "promise (run c evs) = settled_with c a"
  have "is_final_type c a"
    using final_produced [of c evs] a(1) by (simp add: produced_ok_def)
  moreover have "\<not> skipDispatch c a \<and> dispatch (the_env c) a = Some thrown"
    using a(2) assms by (auto simp: settled_with_def split: if_splits option.splits)
  ultimately show ?thesis using a(1) by blast
qed (use assms in auto)

lemma never_rejected:
  assumes "final_dispatch_returns c" "serializer_returns c"
  shows "rejection (promise (run c evs)) = None"
proof (cases "promise (run c evs)")
  case None
  then show ?thesis by simp
next
  case (Some r)
  show ?thesis
  proof (cases r)
    case (Inr a)
    then show ?thesis using Some by simp
  next
    case (Inl thrown)
    from rejected_promise [of c evs thrown] Some Inl
    have "(\<exists>a. is_final_type c a \<and> dispatch (the_env c) a = Some thrown) \<or>
          (\<exists>err. catch_action c err = Inl thrown)" by blast
    moreover have "catch_action c err \<noteq> Inl thrown" for err
      using catch_action_returns [OF assms(2), of err] by auto
    ultimately have False
      using assms(1) by (auto simp: final_dispatch_returns_def is_final_type_def)
    then show ?thesis ..
  qed
qed

text \<open>
  C5, as amended. For an invocation (the request id has been generated), whatever
  \<open>condition\<close>, \<open>getPendingMeta\<close> and the payload creator do and whenever \<open>abort\<close>
  is called: the promise returned to the caller is rejected only with what the dispatch
  of the final action threw, or with what \<open>serializeError\<close> threw in the
  \<^verbatim>\<open>catch\<close> block. So when \<open>serializeError\<close>, if there is one, returns normally and
  dispatching the final action returns normally, the promise is never rejected: it is
  pending or resolved with the final action, which is a fulfilled or a rejected action;
  and it does get resolved once the promises returned by the callbacks have settled and
  the event loop has run.
\<close>

theorem promise_never_rejects:
  "(promise (run c evs) = Some (Inl thrown) \<longrightarrow>
      (\<exists>a. finalAction (run c evs) = Some a \<and> is_final_type c a \<and> \<not> skipDispatch c a \<and>
           dispatch (the_env c) a = Some thrown) \<or>
      finalAction (run c evs) = None \<and>
        (\<exists>err. serialized (options (the_thunk c)) err = Inl thrown)) \<and>
   (final_dispatch_returns c \<and> serializer_returns c \<longrightarrow>
      rejection (promise (run c evs)) = None \<and>
      (promises_settle c \<longrightarrow>
         (\<exists>n a. promise (run c (evs @ [ConditionSettles, Microtask, CreatorSettles]
                                @ replicate n Microtask)) = Some (Inr a) \<and>
                is_final_type c a))) \<and>
   (resolved (promise (run c evs)) = None \<or>
    resolved (promise (run c evs)) = finalAction (run c evs)) \<and>
   pred_option (is_final_type c) (finalAction (run c evs))"
proof -
  have ok: "produced_ok (\<lambda>a. True) (is_final_type c) (run c evs')" for evs'
    by (rule final_produced)
  have ser: "\<exists>e. serialized (options (the_thunk c)) e = Inl t" if "catch_action c err = Inl t"
    for err t
    using that by (cases err) (auto simp: catch_action_def rejected_throws)
  have only: "(\<exists>a. finalAction (run c evs) = Some a \<and> is_final_type c a \<and> \<not> skipDispatch c a \<and>
           dispatch (the_env c) a = Some thrown) \<or>
      finalAction (run c evs) = None \<and>
        (\<exists>err. serialized (options (the_thunk c)) err = Inl thrown)"
    if "promise (run c evs) = Some (Inl thrown)"
    using rejected_promise [OF that] ser by blast
  have live: "\<exists>n a. promise (run c (evs @ [ConditionSettles, Microtask, CreatorSettles]
                                   @ replicate n Microtask)) = Some (Inr a) \<and> is_final_type c a"
    if "promises_settle c" and h: "final_dispatch_returns c" "serializer_returns c"
  proof -
    from promise_settles [OF that(1), of evs] obtain n where
      n: "promise (run c (evs @ [ConditionSettles, Microtask, CreatorSettles]
                       @ replicate n Microtask)) \<noteq> None" by blast
    let ?s = "run c (evs @ [ConditionSettles, Microtask, CreatorSettles] @ replicate n Microtask)"
    from n obtain r where r: "promise ?s = Some r" by auto
    have "rejection (promise ?s) = None" using never_rejected [OF h] .
    then obtain a where a: "r = Inr a" using r by (cases r) auto
    have "finalAction ?s = Some a"
      using ok [of "evs @ [ConditionSettles, Microtask, CreatorSettles] @ replicate n Microtask"] r a
      by (auto simp: produced_ok_def)
    then have "is_final_type c a"
      using ok [of "evs @ [ConditionSettles, Microtask, CreatorSettles] @ replicate n Microtask"]
      by (simp add: produced_ok_def)
    then show ?thesis using r a by blast
  qed
  show ?thesis
    using only never_rejected [of c evs] ok [of evs] live
    by (simp add: produced_ok_def)
qed

theorem promise_never_rejects_witness:
  "final_dispatch_returns fetchUser7 \<and> serializer_returns fetchUser7 \<and>
   promises_settle fetchUser7 \<and>
   invoke fetchUser store (JNum 7) = Inr fetchUser7 \<and>
   rejection (promise (run fetchUser7 [CreatorSettles, Microtask, Microtask, Microtask])) = None \<and>
   promise (run fetchUser7 [CreatorSettles, Microtask, Microtask, Microtask]) =
     Some (Inr (fulfilled ''fetchUser'' (JObj [(''id'', JNum 7)], ''R'', JNum 7, JUndefined))) \<and>
   (\<exists>n a. promise (run fetchUser7 ([] @ [ConditionSettles, Microtask, CreatorSettles]
                                   @ replicate n Microtask)) = Some (Inr a)) \<and>
   promise (run \<lparr> the_thunk = fetchUser, the_env = throwingStore, arg = JNum 7, requestId = ''R'' \<rparr>
              [CreatorSettles, Microtask, Microtask, Microtask]) =
     Some (Inl (JStr ''reducer failed'')) \<and>
   (\<exists>a. finalAction
          (run \<lparr> the_thunk = fetchUser, the_env = throwingStore, arg = JNum 7, requestId = ''R'' \<rparr>
             [CreatorSettles, Microtask, Microtask, Microtask]) = Some a \<and>
        dispatch throwingStore a = Some (JStr ''reducer failed''))"
proof -
  let ?evs = "[CreatorSettles, Microtask, Microtask, Microtask]"
  let ?t = "\<lparr> the_thunk = fetchUser, the_env = throwingStore, arg = JNum 7, requestId = ''R'' \<rparr>"
  have h: "final_dispatch_returns fetchUser7" "serializer_returns fetchUser7"
    "promises_settle fetchUser7"
    by (simp_all add: final_dispatch_returns_def serializer_returns_def promises_settle_def
        conditionResult_def creatorRun_def example_defs)
  have i: "invoke fetchUser store (JNum 7) = Inr fetchUser7"
    by (simp add: invoke_def generateId_def example_defs)
  have p: "promise (run fetchUser7 ?evs) =
     Some (Inr (fulfilled ''fetchUser'' (JObj [(''id'', JNum 7)], ''R'', JNum 7, JUndefined)))"
    by (simp add: engine_defs example_defs)
  have one: "rejection (promise (run fetchUser7 ?evs)) = None"
    using h promise_never_rejects [of fetchUser7 ?evs] by blast
  have two: "\<exists>n a. promise (run fetchUser7 ([] @ [ConditionSettles, Microtask, CreatorSettles]
                                   @ replicate n Microtask)) = Some (Inr a)"
    using h promise_never_rejects [of fetchUser7 "[]"] by blast
  have q: "promise (run ?t ?evs) = Some (Inl (JStr ''reducer failed''))"
    by (simp add: engine_defs fetchUser_def store_def throwingStore_def)
  have nos: "serialized (options (the_thunk ?t)) err \<noteq> Inl thrown" for err thrown
    by (simp add: serialized_def fetchUser_def)
  have three: "\<exists>a. finalAction (run ?t ?evs) = Some a \<and>
      dispatch throwingStore a = Some (JStr ''reducer failed'')"
    using q nos promise_never_rejects [of ?t ?evs "JStr ''reducer failed''"] by auto
  show ?thesis using h i one p two q three by blast
qed

text \<open>
  The claim as stated fails in three ways. When the store throws on the fulfilled action,
  the promise returned to the caller is rejected with what the store threw. When
  \<open>serializeError\<close> throws in the \<^verbatim>\<open>catch\<close> block, there is no final action and the
  promise is rejected with what it threw. When \<open>idGenerator\<close> throws, the call itself
  throws and returns no promise.
\<close>

theorem promise_rejected_by_dispatch:
  "promise (run \<lparr> the_thunk = fetchUser, the_env = throwingStore, arg = JNum 7, requestId = ''R'' \<rparr>
             [CreatorSettles, Microtask, Microtask, Microtask])
     = Some (Inl (JStr ''reducer failed'')) \<and>
   promise (run \<lparr> the_thunk = throwingSerializer, the_env = store, arg = JNum 7, requestId = ''R'' \<rparr> [])
     = Some (Inl (JStr ''cannot serialize'')) \<and>
   finalAction (run \<lparr> the_thunk = throwingSerializer, the_env = store, arg = JNum 7, requestId = ''R'' \<rparr> [])
     = None \<and>
   invoke throwingIdGenerator store (JNum 7) = Inl (JStr ''no id'')"
  by (simp add: engine_defs example_defs throwingStore_def throwingSerializer_def
      throwingIdGenerator_def invoke_def generateId_def)

section \<open>The condition returns false\<close>


lemma entry_as_run: "\<exists>evs0. entry c = run c evs0"
proof (cases "conditionResult c")
  case (Returns v)
  then have "entry c = run c []" by (simp add: entry_def run_def actionCreator_def)
  then show ?thesis by blast
next
  case (Throws e)
  then have "entry c = run c []" by (simp add: entry_def run_def actionCreator_def)
  then show ?thesis by blast
next
  case (ReturnsPromise p)
  show ?thesis
  proof (cases "settlement_result p")
    case None
    then have "entry c = run c []" using ReturnsPromise
      by (simp add: entry_def run_def actionCreator_def)
    then show ?thesis by blast
  next
    case (Some r)
    then have "entry c = run c [ConditionSettles, Microtask]" using ReturnsPromise
      by (simp add: entry_def run_def actionCreator_def awaiting_steps del: step.simps)
    then show ?thesis by blast
  qed
qed

lemma wf_entry: "wf_state (entry c)"
  using entry_as_run [of c] wf_run by metis

lemma awaiting_outputs:
  "dispatched (initial\<lparr>conditionPromise := Some p\<rparr>) = []"
  "creatorCalls (initial\<lparr>conditionPromise := Some p\<rparr>) = 0"
  "dispatched (initial\<lparr>queue := q\<rparr>) = []"
  "creatorCalls (initial\<lparr>queue := q\<rparr>) = 0"
  by simp_all

lemma catch_action_caught:
  assumes "\<forall>p m. err \<noteq> RejectWithValue p m"
  shows "catch_action c err = Inr a \<longleftrightarrow>
           (\<exists>se. serialized (options (the_thunk c)) err = Inr se \<and> a = caught c err se)"
    and "catch_action c err = Inl thrown \<longleftrightarrow> serialized (options (the_thunk c)) err = Inl thrown"
  using assms by (cases err; auto simp: catch_action_def caught_def rejected_returns rejected_throws)+

lemma gate_false_entry:
  assumes "conditionResult c = Returns (JBool False) \<or>
           conditionResult c = ReturnsPromise (Fulfils (JBool False))"
  shows "entry c = catch c conditionError initial"
  using assms by (auto simp: entry_def after_condition_def)

lemma gate_false_skip:
  assumes "conditionResult c = Returns (JBool False) \<or>
           conditionResult c = ReturnsPromise (Fulfils (JBool False))"
  shows "skipDispatch c (caught c conditionError se) = (\<not> dispatchesConditionRejection c)"
proof -
  have "options (the_thunk c) \<noteq> None"
    using assms by (auto simp: conditionResult_def split: option.splits)
  then show ?thesis
    by (auto simp: skipDispatch_def dispatchesConditionRejection_def caught_def
        conditionError_def match_def get_def map_of_literal)
qed

text \<open>
  C4, as amended. When \<open>condition\<close> returns false, at once or through a promise, the
  payload creator is never called and the only action ever dispatched is the rejected
  action of the condition error, and that only when \<open>dispatchConditionRejection\<close> is
  true: no pending action is dispatched. When \<open>serializeError\<close> (if there is one)
  returns normally for the condition error, then once the condition has settled and the
  function has resumed, the final action is that rejected action, whose meta has
  \<open>condition = true\<close>; without \<open>dispatchConditionRejection\<close> nothing has been
  dispatched and the promise is resolved with it; with \<open>dispatchConditionRejection = true\<close>
  it has been dispatched, and the promise is resolved with it if that dispatch returned,
  and rejected with what the dispatch threw otherwise.
\<close>

theorem condition_false:
  assumes "conditionResult c = Returns (JBool False) \<or>
           conditionResult c = ReturnsPromise (Fulfils (JBool False))"
  shows "creatorCalls (run c evs) = 0 \<and>
         (\<forall>a \<in> set (dispatched (run c evs)).
            dispatchesConditionRejection c \<and> catch_action c conditionError = Inr a \<and>
            type a = typePrefix (the_thunk c) @ ''/rejected'') \<and>
         (serialized (options (the_thunk c)) conditionError = Inr se \<longrightarrow>
            catch_action c conditionError = Inr (caught c conditionError se) \<and>
            finalAction (run c (evs @ [ConditionSettles, Microtask])) =
              Some (caught c conditionError se) \<and>
            type (caught c conditionError se) = typePrefix (the_thunk c) @ ''/rejected'' \<and>
            props (meta (caught c conditionError se)) ''condition'' = Some (JBool True) \<and>
            (if dispatchesConditionRejection c
             then dispatched (run c (evs @ [ConditionSettles, Microtask])) =
                    [caught c conditionError se] \<and>
                  promise (run c (evs @ [ConditionSettles, Microtask])) =
                    (case dispatch (the_env c) (caught c conditionError se) of
                       None \<Rightarrow> Some (Inr (caught c conditionError se))
                     | Some thrown \<Rightarrow> Some (Inl thrown))
             else dispatched (run c (evs @ [ConditionSettles, Microtask])) = [] \<and>
                  promise (run c (evs @ [ConditionSettles, Microtask])) =
                    Some (Inr (caught c conditionError se))))"
proof -
  let ?ra = "caught c conditionError se"
  have obj: "\<forall>p m. conditionError \<noteq> RejectWithValue p m" by (simp add: conditionError_def)
  have e: "entry c = catch c conditionError initial" using gate_false_entry [OF assms] .
  have fin: "phase (entry c) = Finished" by (simp add: e)
  have ent: "creatorCalls (entry c) = 0 \<and>
             (\<forall>a \<in> set (dispatched (entry c)).
                dispatchesConditionRejection c \<and> catch_action c conditionError = Inr a \<and>
                type a = typePrefix (the_thunk c) @ ''/rejected'')"
  proof (cases "catch_action c conditionError")
    case (Inl thrown)
    then show ?thesis by (simp add: e catch_def)
  next
    case (Inr a)
    then obtain se' where a: "a = caught c conditionError se'"
      using catch_action_caught(1) [OF obj] by blast
    show ?thesis
      using Inr gate_false_skip [OF assms, of se']
      by (simp add: e catch_def a finish_outputs) (simp add: caught_def)
  qed
  have after: "creatorCalls (steps c evs' (entry c)) = creatorCalls (entry c) \<and>
               dispatched (steps c evs' (entry c)) = dispatched (entry c) \<and>
               finalAction (steps c evs' (entry c)) = finalAction (entry c) \<and>
               promise (steps c evs' (entry c)) = promise (entry c)" for evs'
    using finished_steps [OF wf_entry fin, of c evs'] by simp
  have always: "creatorCalls (run c evs) = 0 \<and>
         (\<forall>a \<in> set (dispatched (run c evs)).
            dispatchesConditionRejection c \<and> catch_action c conditionError = Inr a \<and>
            type a = typePrefix (the_thunk c) @ ''/rejected'')"
    using gate_phase [of c evs] after ent by (auto simp: awaiting_outputs)
  have "conditionResult c \<noteq> ReturnsPromise Never" using assms by auto
  from gate_completion [OF this, of evs] obtain evs' where
    "run c (evs @ [ConditionSettles, Microtask]) = steps c evs' (entry c)" by blast
  then have final: "finalAction (run c (evs @ [ConditionSettles, Microtask])) = finalAction (entry c) \<and>
      dispatched (run c (evs @ [ConditionSettles, Microtask])) = dispatched (entry c) \<and>
      promise (run c (evs @ [ConditionSettles, Microtask])) = promise (entry c)"
    using after [of evs'] by simp
  have meta: "type ?ra = typePrefix (the_thunk c) @ ''/rejected'' \<and>
      props (meta ?ra) ''condition'' = Some (JBool True)"
    by (simp add: caught_def conditionError_def get_def map_of_literal)
  have built: "catch_action c conditionError = Inr ?ra \<and>
      finalAction (entry c) = Some ?ra \<and>
      (if dispatchesConditionRejection c
       then dispatched (entry c) = [?ra] \<and>
            promise (entry c) =
              (case dispatch (the_env c) ?ra of
                 None \<Rightarrow> Some (Inr ?ra) | Some thrown \<Rightarrow> Some (Inl thrown))
       else dispatched (entry c) = [] \<and> promise (entry c) = Some (Inr ?ra))"
    if se: "serialized (options (the_thunk c)) conditionError = Inr se"
  proof -
    have ca: "catch_action c conditionError = Inr ?ra"
      using catch_action_caught(1) [OF obj] se by blast
    show ?thesis
      using ca gate_false_skip [OF assms, of se]
      by (simp add: e catch_def finish_outputs settled_with_def split: option.splits)
  qed
  show ?thesis using always final meta built by simp
qed

lemmas gated_defs = gatedFetchUser_def fetchUser_def store_def

theorem condition_false_witness:
  "conditionResult \<lparr>the_thunk = gatedFetchUser, the_env = store, arg = JNum 7, requestId = ''R''\<rparr>
     = ReturnsPromise (Fulfils (JBool False)) \<and>
   serialized (options gatedFetchUser) conditionError = Inr conditionError \<and>
   dispatched (run \<lparr>the_thunk = gatedFetchUser, the_env = store, arg = JNum 7, requestId = ''R''\<rparr>
                 ([CallAbort None] @ [ConditionSettles, Microtask])) = [] \<and>
   creatorCalls (run \<lparr>the_thunk = gatedFetchUser, the_env = store, arg = JNum 7, requestId = ''R''\<rparr>
                 [CallAbort None]) = 0 \<and>
   promise (run \<lparr>the_thunk = gatedFetchUser, the_env = store, arg = JNum 7, requestId = ''R''\<rparr>
                 ([CallAbort None] @ [ConditionSettles, Microtask])) =
     Some (Inr (caught \<lparr>the_thunk = gatedFetchUser, the_env = store, arg = JNum 7, requestId = ''R''\<rparr>
                  conditionError conditionError)) \<and>
   dispatchesConditionRejection
     \<lparr>the_thunk = gatedDispatching, the_env = store, arg = JNum 7, requestId = ''R''\<rparr> \<and>
   dispatched (run \<lparr>the_thunk = gatedDispatching, the_env = store, arg = JNum 7, requestId = ''R''\<rparr>
                 ([] @ [ConditionSettles, Microtask])) =
     [caught \<lparr>the_thunk = gatedDispatching, the_env = store, arg = JNum 7, requestId = ''R''\<rparr>
        conditionError conditionError] \<and>
   promise (run \<lparr>the_thunk = gatedDispatching, the_env = store, arg = JNum 7, requestId = ''R''\<rparr>
                 ([] @ [ConditionSettles, Microtask])) =
     Some (Inr (caught \<lparr>the_thunk = gatedDispatching, the_env = store, arg = JNum 7, requestId = ''R''\<rparr>
                  conditionError conditionError)) \<and>
   map type
     (dispatched (run \<lparr>the_thunk = gatedDispatching, the_env = store, arg = JNum 7, requestId = ''R''\<rparr>
                    [ConditionSettles, Microtask, CallAbort None])) = [''fetchUser/rejected'']"
proof -
  let ?c = "\<lparr>the_thunk = gatedFetchUser, the_env = store, arg = JNum 7, requestId = ''R''\<rparr>"
  let ?d = "\<lparr>the_thunk = gatedDispatching, the_env = store, arg = JNum 7, requestId = ''R''\<rparr>"
  have m: "miniSerializeError conditionError = conditionError"
    by (simp add: miniSerializeError_def commonProperties_def get_def conditionError_def)
  have h: "conditionResult ?c = ReturnsPromise (Fulfils (JBool False))"
    "serialized (options (the_thunk ?c)) conditionError = Inr conditionError"
    "\<not> dispatchesConditionRejection ?c"
    using m by (simp_all add: conditionResult_def serialized_def dispatchesConditionRejection_def
        gated_defs conditionError_def)
  have k: "conditionResult ?d = ReturnsPromise (Fulfils (JBool False))"
    "serialized (options (the_thunk ?d)) conditionError = Inr conditionError"
    "dispatchesConditionRejection ?d"
    "dispatch (the_env ?d) (caught ?d conditionError conditionError) = None"
    using m by (simp_all add: conditionResult_def serialized_def dispatchesConditionRejection_def
        gatedDispatching_def fetchUser_def store_def conditionError_def)
  have s: "serialized (options gatedFetchUser) conditionError = Inr conditionError"
    using h(2) by simp
  from condition_false [of ?c "[CallAbort None]" conditionError] h
  have one: "creatorCalls (run ?c [CallAbort None]) = 0"
    "dispatched (run ?c ([CallAbort None] @ [ConditionSettles, Microtask])) = []"
    "promise (run ?c ([CallAbort None] @ [ConditionSettles, Microtask])) =
       Some (Inr (caught ?c conditionError conditionError))"
    by simp_all
  from condition_false [of ?d "[]" conditionError] k
  have two: "dispatched (run ?d ([] @ [ConditionSettles, Microtask])) =
       [caught ?d conditionError conditionError]"
    "promise (run ?d ([] @ [ConditionSettles, Microtask])) =
       Some (Inr (caught ?d conditionError conditionError))"
    by simp_all
  have len: "length (dispatched (run ?d [ConditionSettles, Microtask, CallAbort None])) = 1"
    by (simp add: engine_defs gatedDispatching_def fetchUser_def store_def)
  have "\<forall>a \<in> set (dispatched (run ?d [ConditionSettles, Microtask, CallAbort None])).
          type a = typePrefix (the_thunk ?d) @ ''/rejected''"
    using k(1) condition_false [of ?d "[ConditionSettles, Microtask, CallAbort None]"] by blast
  then have "\<forall>a \<in> set (dispatched (run ?d [ConditionSettles, Microtask, CallAbort None])).
          type a = ''fetchUser/rejected''"
    by (simp add: gatedDispatching_def fetchUser_def)
  then have three: "map type (dispatched (run ?d [ConditionSettles, Microtask, CallAbort None])) =
      [''fetchUser/rejected'']"
    using len
    by (cases "dispatched (run ?d [ConditionSettles, Microtask, CallAbort None])") simp_all
  show ?thesis using h(1) s one k(3) two three by blast
qed

text \<open>
  The claim as stated fails in two ways. With \<open>dispatchConditionRejection: true\<close> and a
  store that throws on the rejected action, that action is dispatched but the promise is
  rejected with what the store threw. With a \<open>serializeError\<close> that throws on the
  condition error there is no rejected action at all, and the promise is rejected with
  what it threw.
\<close>

theorem condition_rejection_not_resolved:
  "map type
     (dispatched (run \<lparr>the_thunk = gatedDispatching, the_env = rejectingStore, arg = JNum 7,
                       requestId = ''R''\<rparr> [ConditionSettles, Microtask])) =
     [''fetchUser/rejected''] \<and>
   promise (run \<lparr>the_thunk = gatedDispatching, the_env = rejectingStore, arg = JNum 7,
                  requestId = ''R''\<rparr> [ConditionSettles, Microtask]) =
     Some (Inl (JStr ''reducer failed'')) \<and>
   finalAction (run \<lparr>the_thunk = gatedThrowingSerializer, the_env = store, arg = JNum 7,
                      requestId = ''R''\<rparr> [ConditionSettles, Microtask]) = None \<and>
   promise (run \<lparr>the_thunk = gatedThrowingSerializer, the_env = store, arg = JNum 7,
                  requestId = ''R''\<rparr> [ConditionSettles, Microtask]) =
     Some (Inl (JStr ''cannot serialize''))"
  by (simp add: engine_defs gatedDispatching_def gatedThrowingSerializer_def rejectingStore_def
      fetchUser_def store_def miniSerializeError_def commonProperties_def)

section \<open>A race that nobody aborts\<close>


lemma racing_fields [simp]:
  "started (racing pa cp q rs) = True" "abortReason (racing pa cp q rs) = None"
  "abortedPromise (racing pa cp q rs) = None" "raceCreated (racing pa cp q rs) = True"
  "raceSettled (racing pa cp q rs) = rs" "conditionPromise (racing pa cp q rs) = None"
  "creatorPromise (racing pa cp q rs) = cp" "phase (racing pa cp q rs) = Racing"
  "queue (racing pa cp q rs) = q" "dispatched (racing pa cp q rs) = [pa]"
  "creatorCalls (racing pa cp q rs) = 1" "finalAction (racing pa cp q rs) = None"
  "promise (racing pa cp q rs) = None"
  by (simp_all add: racing_def)

lemma racing_updates [simp]:
  "(racing pa cp q rs)\<lparr>queue := q'\<rparr> = racing pa cp q' rs"
  "(racing pa cp q rs)\<lparr>creatorPromise := cp'\<rparr> = racing pa cp' q rs"
  "(racing pa cp q rs)\<lparr>raceSettled := rs'\<rparr> = racing pa cp q rs'"
  by (simp_all add: racing_def)

lemma racing_steps:
  "step c ConditionSettles (racing pa cp q rs) = racing pa cp q rs"
  "step c CreatorSettles (racing pa None q rs) = racing pa None q rs"
  "step c CreatorSettles (racing pa (Some p) q rs) =
     (case settlement_result p of
        Some r \<Rightarrow> racing pa None (q @ [ThenCallback r]) rs
      | None \<Rightarrow> racing pa (Some p) q rs)"
  "step c Microtask (racing pa cp [] rs) = racing pa cp [] rs"
  "step c Microtask (racing pa cp (ThenCallback r # q) rs) =
     racing pa cp (q @ [RaceSettled (then_result c r)]) rs"
  "step c Microtask (racing pa cp (RaceSettled rr # q) False) =
     racing pa cp (q @ [ResumeAfterRace rr]) True"
  "step c Microtask (racing pa cp (ResumeAfterRace rr # q) rs) =
     run_job c (ResumeAfterRace rr) (racing pa cp q rs)"
  by (cases p; cases r; cases rr;
      simp add: enqueue_def settle_race_def then_result_def)+

lemma finished_race_steps:
  "\<not> is_abort ev \<Longrightarrow>
   step c ev (run_job c (ResumeAfterRace rr) (racing pa None [] True)) =
     run_job c (ResumeAfterRace rr) (racing pa None [] True)"
  by (cases ev; cases rr) (simp_all add: catch_def split: sum.splits)

text \<open>
  A race that nobody aborts: whatever else happens, once the payload creator's promise
  has settled with \<open>r\<close> and three microtasks have run, the function has finished with
  the action that \<open>r\<close> stands for.
\<close>

lemma undisturbed_race:
  assumes s0: "s0 = racing pa (Some p) [] False \<and> settlement_result p = Some r \<or>
               s0 = racing pa None [ThenCallback r] False"
    and evs: "\<forall>ev \<in> set evs. \<not> is_abort ev"
  shows "steps c (evs @ [CreatorSettles, Microtask, Microtask, Microtask]) s0 =
           run_job c (ResumeAfterRace (then_result c r)) (racing pa None [] True)"
proof -
  let ?rr = "then_result c r"
  let ?fin = "run_job c (ResumeAfterRace ?rr) (racing pa None [] True)"
  let ?K = "\<lambda>s. (\<exists>p. s = racing pa (Some p) [] False \<and> settlement_result p = Some r) \<or>
                 s = racing pa None [ThenCallback r] False \<or>
                 s = racing pa None [RaceSettled ?rr] False \<or>
                 s = racing pa None [ResumeAfterRace ?rr] True \<or>
                 s = ?fin"
  have K0: "?K s0" using s0 by auto
  have Kstep: "?K (step c ev s)" if "?K s" "ev \<in> set evs" for s ev
  proof -
    have na: "\<not> is_abort ev" using that evs by blast
    from that(1) show ?thesis
    proof (elim disjE exE conjE)
      fix p assume "s = racing pa (Some p) [] False" "settlement_result p = Some r"
      then show ?thesis using na
        by (cases ev) (auto simp: racing_steps simp del: step.simps)
    next
      assume "s = racing pa None [ThenCallback r] False"
      then show ?thesis using na
        by (cases ev) (auto simp: racing_steps simp del: step.simps)
    next
      assume "s = racing pa None [RaceSettled ?rr] False"
      then show ?thesis using na
        by (cases ev) (auto simp: racing_steps simp del: step.simps)
    next
      assume "s = racing pa None [ResumeAfterRace ?rr] True"
      then show ?thesis using na
        by (cases ev) (auto simp: racing_steps simp del: step.simps)
    next
      assume "s = ?fin"
      then show ?thesis using na finished_race_steps [of ev c ?rr pa] by simp
    qed
  qed
  have K: "?K (steps c evs s0)"
    by (rule steps_invariant [where P = ?K]) (use K0 Kstep in auto)
  have fin: "steps c [CreatorSettles, Microtask, Microtask, Microtask] s = ?fin" if "?K s" for s
    using that
  proof (elim disjE exE conjE)
    assume "s = ?fin"
    then show ?thesis by (simp add: finished_race_steps del: step.simps run_job.simps)
  qed (simp_all add: racing_steps finished_race_steps del: step.simps run_job.simps)
  show ?thesis using fin [OF K] by simp
qed



lemma entry_creator:
  assumes "gate_passes c" "pendingAction c = Inr pa" "dispatch (the_env c) pa = None"
  shows "entry c = call_creator c (initial\<lparr>started := True, dispatched := [pa]\<rparr>)"
  using assms
  by (auto simp: gate_passes_def gate_value_def entry_def after_condition_def Let_def
      split: ret.splits settlement.splits)

lemma undisturbed_entry:
  assumes "gate_passes c" "pendingAction c = Inr pa" "dispatch (the_env c) pa = None"
    "aborts (creatorRun c) = []"
  shows "returned (creatorRun c) = Returns x \<Longrightarrow>
           entry c = racing pa None [ThenCallback (Inr x)] False"
    and "returned (creatorRun c) = ReturnsPromise p \<Longrightarrow> entry c = racing pa (Some p) [] False"
    and "returned (creatorRun c) = Throws e \<Longrightarrow>
           entry c = catch c e
             (initial\<lparr>started := True, dispatched := [pa], creatorCalls := 1\<rparr>)"
  using assms
  by (simp_all add: entry_creator [OF assms(1,2,3)] call_creator_def create_race_def racing_def
      enqueue_def initial_def)

text \<open>
  An invocation that passes the gate, whose pending action is accepted by the store and
  whose payload creator settles with \<open>r\<close> without calling \<open>abort\<close>, finishes, when
  nobody else calls \<open>abort\<close> either, with the action that \<open>r\<close> stands for.
\<close>

lemma undisturbed_run:
  assumes gate: "gate_passes c"
    and pend: "pendingAction c = Inr pa"
    and disp: "dispatch (the_env c) pa = None"
    and na: "aborts (creatorRun c) = []"
    and ret: "returned (creatorRun c) = Returns x \<and> r = Inr x \<or>
              (\<exists>p. returned (creatorRun c) = ReturnsPromise p \<and> settlement_result p = Some r)"
    and evs: "\<forall>ev \<in> set evs. \<not> is_abort ev"
  shows "run c (evs @ [ConditionSettles, Microtask, CreatorSettles, Microtask, Microtask, Microtask]) =
           run_job c (ResumeAfterRace (then_result c r)) (racing pa None [] True)"
proof -
  have "conditionResult c \<noteq> ReturnsPromise Never"
    using gate by (auto simp: gate_passes_def gate_value_def)
  from gate_completion [OF this, of evs] obtain evs' where
    sub: "set evs' \<subseteq> set evs \<union> {ConditionSettles, Microtask}"
    and run: "run c (evs @ [ConditionSettles, Microtask]) = steps c evs' (entry c)" by blast
  have na': "\<forall>ev \<in> set evs'. \<not> is_abort ev" using sub evs by auto
  have s0: "entry c = racing pa (Some p) [] False \<and> settlement_result p = Some r \<or>
            entry c = racing pa None [ThenCallback r] False" if "returned (creatorRun c) = ReturnsPromise p \<and> settlement_result p = Some r \<or> returned (creatorRun c) = Returns x \<and> r = Inr x" for p
    using that undisturbed_entry [OF gate pend disp na] by auto
  from ret obtain p where
    "entry c = racing pa (Some p) [] False \<and> settlement_result p = Some r \<or>
     entry c = racing pa None [ThenCallback r] False"
    using s0 by blast
  from undisturbed_race [OF this na']
  have "steps c (evs' @ [CreatorSettles, Microtask, Microtask, Microtask]) (entry c) =
          run_job c (ResumeAfterRace (then_result c r)) (racing pa None [] True)" .
  moreover have "run c (evs @ [ConditionSettles, Microtask, CreatorSettles, Microtask, Microtask, Microtask])
      = steps c [CreatorSettles, Microtask, Microtask, Microtask] (run c (evs @ [ConditionSettles, Microtask]))"
    using run_append [of c "evs @ [ConditionSettles, Microtask]" "[CreatorSettles, Microtask, Microtask, Microtask]"]
    by simp
  ultimately show ?thesis using run by simp
qed

lemma skipDispatch_fulfilled [simp]:
  "skipDispatch c (fulfilled (typePrefix (the_thunk c)) (p, rid, a, m)) = False"
  by (simp add: skipDispatch_def match_def split: option.splits)

lemma unwrapResult_plain_fulfilled:
  "unwrapResult (fulfilled tp (V, rid, a, JUndefined)) = Inr V"
  by (simp add: unwrapResult_def get_def map_of_literal)

text \<open>
  C1, as amended. When the gate is absent or passes, the pending action is built and the
  payload creator settles with a plain value \<open>V\<close> (returned directly or through a
  promise), nobody calls \<open>abort\<close>, and the store accepts the two actions without
  throwing, then exactly two actions are dispatched, the pending action and then the
  fulfilled action with payload \<open>V\<close>, the promise is resolved with the latter, and
  \<^verbatim>\<open>unwrap()\<close> resolves to \<open>V\<close>.
\<close>

theorem plain_value_fulfils:
  assumes "gate_passes c"
    and "pendingAction c = Inr pa"
    and "dispatch (the_env c) pa = None"
    and "dispatch (the_env c) (fulfilled (typePrefix (the_thunk c)) (V, requestId c, arg c, JUndefined)) = None"
    and "aborts (creatorRun c) = []"
    and "returned (creatorRun c) = Returns V \<or> returned (creatorRun c) = ReturnsPromise (Fulfils V)"
    and "is_plain V"
    and "\<forall>ev \<in> set evs. \<not> is_abort ev"
  shows "dispatched (run c (evs @ [ConditionSettles, Microtask, CreatorSettles,
                                   Microtask, Microtask, Microtask])) =
           [pa, fulfilled (typePrefix (the_thunk c)) (V, requestId c, arg c, JUndefined)] \<and>
         type pa = typePrefix (the_thunk c) @ ''/pending'' \<and>
         type (fulfilled (typePrefix (the_thunk c)) (V, requestId c, arg c, JUndefined)) =
           typePrefix (the_thunk c) @ ''/fulfilled'' \<and>
         payload (fulfilled (typePrefix (the_thunk c)) (V, requestId c, arg c, JUndefined)) = V \<and>
         promise (run c (evs @ [ConditionSettles, Microtask, CreatorSettles,
                                Microtask, Microtask, Microtask])) =
           Some (Inr (fulfilled (typePrefix (the_thunk c)) (V, requestId c, arg c, JUndefined))) \<and>
         unwrap (run c (evs @ [ConditionSettles, Microtask, CreatorSettles,
                               Microtask, Microtask, Microtask])) = Some (Inr V)"
proof -
  let ?fa = "fulfilled (typePrefix (the_thunk c)) (V, requestId c, arg c, JUndefined)"
  have ret: "returned (creatorRun c) = Returns V \<and> Inr V = Inr V \<or>
             (\<exists>p. returned (creatorRun c) = ReturnsPromise p \<and> settlement_result p = Some (Inr V))"
    using assms(6) by auto
  have fin: "then_result c (Inr V) = Inr ?fa"
    using assms(7) by (cases V) (simp_all add: then_result_def then_callback_def)
  have "run c (evs @ [ConditionSettles, Microtask, CreatorSettles, Microtask, Microtask, Microtask]) =
          finish c ?fa (racing pa None [] True)"
    using undisturbed_run [OF assms(1,2,3,5) ret assms(8)] fin by simp
  moreover have "type pa = typePrefix (the_thunk c) @ ''/pending''"
    using pendingAction_cases [OF assms(2)] by auto
  ultimately show ?thesis
    using assms(4)
    by (simp add: finish_outputs settled_with_def unwrap_def unwrapResult_plain_fulfilled)
qed

theorem plain_value_fulfils_witness:
  "gate_passes fetchUser7 \<and> is_plain (JObj [(''id'', JNum 7)]) \<and>
   pendingAction fetchUser7 = Inr (pending ''fetchUser'' (''R'', JNum 7, JUndefined)) \<and>
   dispatched (run fetchUser7 ([Microtask] @ [ConditionSettles, Microtask, CreatorSettles,
                               Microtask, Microtask, Microtask])) =
     [pending ''fetchUser'' (''R'', JNum 7, JUndefined),
      fulfilled ''fetchUser'' (JObj [(''id'', JNum 7)], ''R'', JNum 7, JUndefined)] \<and>
   unwrap (run fetchUser7 ([Microtask] @ [ConditionSettles, Microtask, CreatorSettles,
                           Microtask, Microtask, Microtask])) =
     Some (Inr (JObj [(''id'', JNum 7)]))"
proof -
  have h: "gate_passes fetchUser7"
    "pendingAction fetchUser7 = Inr (pending ''fetchUser'' (''R'', JNum 7, JUndefined))"
    "dispatch (the_env fetchUser7) (pending ''fetchUser'' (''R'', JNum 7, JUndefined)) = None"
    "dispatch (the_env fetchUser7)
       (fulfilled (typePrefix (the_thunk fetchUser7))
          (JObj [(''id'', JNum 7)], requestId fetchUser7, arg fetchUser7, JUndefined)) = None"
    "aborts (creatorRun fetchUser7) = []"
    "returned (creatorRun fetchUser7) = Returns (JObj [(''id'', JNum 7)]) \<or>
     returned (creatorRun fetchUser7) = ReturnsPromise (Fulfils (JObj [(''id'', JNum 7)]))"
    "is_plain (JObj [(''id'', JNum 7)])"
    "\<forall>ev \<in> set [Microtask]. \<not> is_abort ev"
    by (simp_all add: gate_passes_def gate_value_def conditionResult_def creatorRun_def
        pendingAction_def pendingMeta_def example_defs)
  have ids: "typePrefix (the_thunk fetchUser7) = ''fetchUser''" "requestId fetchUser7 = ''R''"
    "arg fetchUser7 = JNum 7"
    by (simp_all add: example_defs)
  show ?thesis
    using h(1,2,7) plain_value_fulfils [OF h] by (simp only: ids)
qed

text \<open>
  The claim as stated fails: with a store that throws on the fulfilled action, both
  actions are dispatched and \<^verbatim>\<open>unwrap()\<close> is rejected with what the store threw.
\<close>

theorem unwrap_rejected_by_dispatch:
  "gate_passes \<lparr> the_thunk = fetchUser, the_env = throwingStore, arg = JNum 7, requestId = ''R'' \<rparr> \<and>
   map type (dispatched (run \<lparr> the_thunk = fetchUser, the_env = throwingStore, arg = JNum 7, requestId = ''R'' \<rparr>
                            [CreatorSettles, Microtask, Microtask, Microtask])) =
     [''fetchUser/pending'', ''fetchUser/fulfilled''] \<and>
   unwrap (run \<lparr> the_thunk = fetchUser, the_env = throwingStore, arg = JNum 7, requestId = ''R'' \<rparr>
              [CreatorSettles, Microtask, Microtask, Microtask]) =
     Some (Inl (JStr ''reducer failed''))"
  by (simp add: engine_defs example_defs throwingStore_def gate_passes_def gate_value_def
      unwrap_def)

section \<open>Rejections\<close>



lemma serialized_by_default:
  "default_serializer c \<Longrightarrow>
   serialized (options (the_thunk c)) (JObj kvs) = Inr (miniSerializeError (JObj kvs))"
  by (simp add: serialized_def default_serializer_def split: option.splits)




text \<open>
  C2. The payload creator returns \<^verbatim>\<open>rejectWithValue(0, { status: 404 })\<close>. The
  final action is rejected with payload 0 and the meta copied, but its
  \<open>rejectedWithValue\<close> is false, since the flag is \<^verbatim>\<open>!!payload\<close>; and
  \<^verbatim>\<open>unwrap()\<close> rejects with the serialized error \<^verbatim>\<open>{ message: 'Rejected' }\<close>
  instead of the payload.
\<close>

theorem rejectWithValue_falsy_payload:
  "map_option type
     (finalAction (run \<lparr>the_thunk = rejectingWithZero, the_env = store, arg = JNum 7, requestId = ''R''\<rparr>
        [Microtask, Microtask, Microtask])) = Some ''fetchUser/rejected'' \<and>
   map_option payload
     (finalAction (run \<lparr>the_thunk = rejectingWithZero, the_env = store, arg = JNum 7, requestId = ''R''\<rparr>
        [Microtask, Microtask, Microtask])) = Some (JNum 0) \<and>
   map_option (\<lambda>a. props (meta a) ''status'')
     (finalAction (run \<lparr>the_thunk = rejectingWithZero, the_env = store, arg = JNum 7, requestId = ''R''\<rparr>
        [Microtask, Microtask, Microtask])) = Some (Some (JNum 404)) \<and>
   map_option (\<lambda>a. props (meta a) ''rejectedWithValue'')
     (finalAction (run \<lparr>the_thunk = rejectingWithZero, the_env = store, arg = JNum 7, requestId = ''R''\<rparr>
        [Microtask, Microtask, Microtask])) = Some (Some (JBool False)) \<and>
   unwrap (run \<lparr>the_thunk = rejectingWithZero, the_env = store, arg = JNum 7, requestId = ''R''\<rparr>
        [Microtask, Microtask, Microtask]) = Some (Inl (JObj [(''message'', JStr ''Rejected'')]))"
  by (simp add: engine_defs rejectingWithZero_def fetchUser_def store_def
      miniSerializeError_def commonProperties_def unwrap_def unwrapResult_def)

text \<open>
  For a truthy payload the rejected action is what the claim describes: the payload, the
  flag set, and every key of the caller's meta that is not one of the engine's.
\<close>

lemma rejectWithValue_truthy_payload:
  assumes "truthy P" "catch_action c (RejectWithValue P (JObj M)) = Inr a"
  shows "payload a = P"
    and "props (meta a) ''rejectedWithValue'' = Some (JBool True)"
    and "k \<notin> {''arg'', ''requestId'', ''rejectedWithValue'', ''requestStatus'', ''aborted'',
              ''condition''} \<Longrightarrow>
         props (meta a) k = map_of M k"
  using assms by (auto simp: catch_action_def rejected_returns map_of_literal map_add_def)

section \<open>Unwrapping the final action\<close>


lemma final_is_built:
  assumes "finalAction (run c evs) = Some a"
  shows "(\<exists>p m. a = fulfilled (typePrefix (the_thunk c)) (p, requestId c, arg c, m)) \<or>
         (\<exists>se e p m. serialized (options (the_thunk c)) e = Inr se \<and>
            a = rejectedAction (typePrefix (the_thunk c)) se (e, requestId c, arg c, p, m))"
proof -
  let ?F = "\<lambda>a. (\<exists>p m. a = fulfilled (typePrefix (the_thunk c)) (p, requestId c, arg c, m)) \<or>
         (\<exists>se e p m. serialized (options (the_thunk c)) e = Inr se \<and>
            a = rejectedAction (typePrefix (the_thunk c)) se (e, requestId c, arg c, p, m))"
  have "produced_ok (\<lambda>a. True) ?F (run c evs)"
    by (rule produced_ok_run) blast+
  then have "pred_option ?F (finalAction (run c evs))" by (simp add: produced_ok_def)
  then show ?thesis using assms by simp
qed

lemma truthy_miniSerializeError [simp]: "truthy (miniSerializeError v)"
  by (simp add: miniSerializeError_def)

lemma unwrapResult_fulfilled:
  "unwrapResult (fulfilled tp (p, rid, a, m)) =
     (if truthy (get (meta (fulfilled tp (p, rid, a, m))) ''rejectedWithValue'')
      then Inl p else Inr p)"
  by (simp add: unwrapResult_def)

lemma unwrapResult_rejected:
  "unwrapResult (rejectedAction tp se (x, rid, a, p, m)) =
     (if truthy p then Inl p else if truthy se then Inl se else Inr p)"
  by (simp add: unwrapResult_def get_def map_of_literal)

lemma type_suffix_distinct [simp]:
  "tp @ ''/fulfilled'' \<noteq> tp @ ''/rejected''" "tp @ ''/rejected'' \<noteq> tp @ ''/fulfilled''"
  by simp_all

text \<open>
  C6, as amended. Let \<open>a\<close> be the final action of a run; it is a fulfilled or a rejected
  action. When its dispatch returns normally (or is skipped), the promise is resolved with
  \<open>a\<close>, and \<^verbatim>\<open>unwrap()\<close> resolves to the payload of a fulfilled \<open>a\<close> whose meta has
  no truthy \<open>rejectedWithValue\<close>, rejects with the payload of a rejected \<open>a\<close> whose
  meta marks \<open>rejectedWithValue\<close>, and rejects with the error field of every other
  rejected \<open>a\<close> whose error field is truthy, as it always is with the default
  serializer. When the dispatch of \<open>a\<close> throws, \<^verbatim>\<open>unwrap()\<close> rejects with what it
  threw.
\<close>

theorem unwrap_of_final:
  assumes "finalAction (run c evs) = Some a"
  shows "(type a = typePrefix (the_thunk c) @ ''/fulfilled'' \<or>
          type a = typePrefix (the_thunk c) @ ''/rejected'') \<and>
         (skipDispatch c a \<or> dispatch (the_env c) a = None \<longrightarrow>
            promise (run c evs) = Some (Inr a) \<and>
            (type a = typePrefix (the_thunk c) @ ''/fulfilled'' \<and>
             \<not> truthy (get (meta a) ''rejectedWithValue'') \<longrightarrow>
               unwrap (run c evs) = Some (Inr (payload a))) \<and>
            (type a = typePrefix (the_thunk c) @ ''/rejected'' \<and>
             truthy (get (meta a) ''rejectedWithValue'') \<longrightarrow>
               unwrap (run c evs) = Some (Inl (payload a))) \<and>
            (type a = typePrefix (the_thunk c) @ ''/rejected'' \<and>
             \<not> truthy (get (meta a) ''rejectedWithValue'') \<longrightarrow>
               (\<exists>e. error a = Some e \<and> (default_serializer c \<longrightarrow> truthy e) \<and>
                    (truthy e \<longrightarrow> unwrap (run c evs) = Some (Inl e))))) \<and>
         (\<forall>thrown. \<not> skipDispatch c a \<and> dispatch (the_env c) a = Some thrown \<longrightarrow>
            promise (run c evs) = Some (Inl thrown) \<and>
            unwrap (run c evs) = Some (Inl thrown))"
proof -
  note pr = final_promise [OF assms, unfolded settled_with_def]
  from final_is_built [OF assms] show ?thesis
  proof (elim disjE exE conjE)
    fix p m assume a: "a = fulfilled (typePrefix (the_thunk c)) (p, requestId c, arg c, m)"
    show ?thesis
      using pr unwrapResult_fulfilled [of "typePrefix (the_thunk c)" p "requestId c" "arg c" m]
      by (auto simp: unwrap_def a)
  next
    fix se e p m
    assume se: "serialized (options (the_thunk c)) e = Inr se"
      and a: "a = rejectedAction (typePrefix (the_thunk c)) se (e, requestId c, arg c, p, m)"
    have flag: "get (meta a) ''rejectedWithValue'' = JBool (truthy p)"
      by (simp add: a get_def map_of_literal)
    have ds: "truthy se" if "default_serializer c"
      using that se by (auto simp: serialized_def default_serializer_def split: option.splits)
    have ur: "unwrapResult a = (if truthy p then Inl p else if truthy se then Inl se else Inr p)"
      by (simp add: a unwrapResult_rejected)
    have fields: "error a = Some se" "payload a = p"
      "type a = typePrefix (the_thunk c) @ ''/rejected''"
      by (simp_all add: a)
    show ?thesis
      using pr flag ds ur fields by (auto simp: unwrap_def)
  qed
qed

theorem unwrap_of_final_witness:
  "finalAction (run fetchUser7 [CreatorSettles, Microtask, Microtask, Microtask]) =
     Some (fulfilled ''fetchUser'' (JObj [(''id'', JNum 7)], ''R'', JNum 7, JUndefined)) \<and>
   promise (run fetchUser7 [CreatorSettles, Microtask, Microtask, Microtask]) =
     Some (Inr (fulfilled ''fetchUser'' (JObj [(''id'', JNum 7)], ''R'', JNum 7, JUndefined))) \<and>
   unwrap (run fetchUser7 [CreatorSettles, Microtask, Microtask, Microtask]) =
     Some (Inr (JObj [(''id'', JNum 7)])) \<and>
   unwrap (run \<lparr>the_thunk = failingFetchUser, the_env = store, arg = JNum 7, requestId = ''R''\<rparr>
             [CreatorSettles, Microtask, Microtask, Microtask]) =
     Some (Inl (JObj [(''message'', JStr ''no such user'')])) \<and>
   unwrap (run \<lparr>the_thunk = fetchUser, the_env = throwingStore, arg = JNum 7, requestId = ''R''\<rparr>
             [CreatorSettles, Microtask, Microtask, Microtask, Microtask]) =
     Some (Inl (JStr ''reducer failed'')) \<and>
   unwrap (run \<lparr>the_thunk = rejectingWithValue, the_env = store, arg = JNum 7, requestId = ''R''\<rparr>
             [Microtask, Microtask, Microtask]) =
     Some (Inl (JStr ''not found''))"
proof -
  let ?a = "fulfilled ''fetchUser'' (JObj [(''id'', JNum 7)], ''R'', JNum 7, JUndefined)"
  let ?evs = "[CreatorSettles, Microtask, Microtask, Microtask]"
  have p: "finalAction (run fetchUser7 ?evs) = Some ?a"
    by (simp add: engine_defs example_defs)
  have f: "\<not> truthy (get (meta ?a) ''rejectedWithValue'')"
    "type ?a = typePrefix (the_thunk fetchUser7) @ ''/fulfilled''"
    "dispatch (the_env fetchUser7) ?a = None"
    by (simp_all add: get_def map_of_literal example_defs)
  have one: "promise (run fetchUser7 ?evs) = Some (Inr ?a)"
    "unwrap (run fetchUser7 ?evs) = Some (Inr (payload ?a))"
    using f unwrap_of_final [OF p] by blast+
  let ?c = "\<lparr>the_thunk = failingFetchUser, the_env = store, arg = JNum 7, requestId = ''R''\<rparr>"
  let ?e = "JObj [(''message'', JStr ''no such user'')]"
  let ?b = "caught ?c ?e ?e"
  have q: "finalAction (run ?c ?evs) = Some ?b"
    by (simp add: engine_defs failingFetchUser_def fetchUser_def store_def caught_def
        miniSerializeError_def commonProperties_def)
  have g: "\<not> truthy (get (meta ?b) ''rejectedWithValue'')"
    "type ?b = typePrefix (the_thunk ?c) @ ''/rejected''"
    "dispatch (the_env ?c) ?b = None" "error ?b = Some ?e" "truthy ?e"
    by (simp_all add: caught_def get_def map_of_literal failingFetchUser_def fetchUser_def
        store_def)
  from unwrap_of_final [OF q] g(1,2,3)
  obtain e where e: "error ?b = Some e" "truthy e \<longrightarrow> unwrap (run ?c ?evs) = Some (Inl e)"
    by blast
  have two: "unwrap (run ?c ?evs) = Some (Inl ?e)"
    using e g(4,5) by simp
  let ?t = "\<lparr>the_thunk = fetchUser, the_env = throwingStore, arg = JNum 7, requestId = ''R''\<rparr>"
  let ?evs' = "[CreatorSettles, Microtask, Microtask, Microtask, Microtask]"
  have r: "finalAction (run ?t ?evs') = Some ?a"
    by (simp add: engine_defs fetchUser_def store_def throwingStore_def)
  have k: "\<not> skipDispatch ?t ?a" "dispatch (the_env ?t) ?a = Some (JStr ''reducer failed'')"
    by (simp_all add: skipDispatch_def fetchUser_def store_def throwingStore_def)
  have three: "unwrap (run ?t ?evs') = Some (Inl (JStr ''reducer failed''))"
    using k unwrap_of_final [OF r] by blast
  let ?w = "\<lparr>the_thunk = rejectingWithValue, the_env = store, arg = JNum 7, requestId = ''R''\<rparr>"
  let ?r = "rejectedAction ''fetchUser'' (JObj [(''message'', JStr ''Rejected'')])
              (JNull, ''R'', JNum 7, JStr ''not found'', JObj [(''status'', JNum 404)])"
  have w: "finalAction (run ?w [Microtask, Microtask, Microtask]) = Some ?r"
    by (simp add: engine_defs rejectingWithValue_def fetchUser_def store_def
        miniSerializeError_def commonProperties_def)
  have v: "truthy (get (meta ?r) ''rejectedWithValue'')"
    "type ?r = typePrefix (the_thunk ?w) @ ''/rejected''"
    "dispatch (the_env ?w) ?r = None" "payload ?r = JStr ''not found''"
    by (simp_all add: get_def map_of_literal rejectingWithValue_def fetchUser_def store_def)
  have "unwrap (run ?w [Microtask, Microtask, Microtask]) = Some (Inl (payload ?r))"
    using v(1,2,3) unwrap_of_final [OF w] by blast
  then have four: "unwrap (run ?w [Microtask, Microtask, Microtask]) = Some (Inl (JStr ''not found''))"
    by (simp only: v(4))
  show ?thesis using p one two three four by simp
qed

text \<open>
  The claim as stated fails: with a store that throws on the rejected action, the final
  action is a rejected action without \<open>rejectedWithValue\<close> whose error field is the
  serialized error, and \<^verbatim>\<open>unwrap()\<close> rejects, not with that error field, but with what
  the store threw.
\<close>

theorem unwrap_not_with_error_field:
  "map_option type
     (finalAction (run \<lparr>the_thunk = failingFetchUser, the_env = rejectingStore, arg = JNum 7,
                        requestId = ''R''\<rparr> [CreatorSettles, Microtask, Microtask, Microtask])) =
     Some ''fetchUser/rejected'' \<and>
   map_option (\<lambda>a. props (meta a) ''rejectedWithValue'')
     (finalAction (run \<lparr>the_thunk = failingFetchUser, the_env = rejectingStore, arg = JNum 7,
                        requestId = ''R''\<rparr> [CreatorSettles, Microtask, Microtask, Microtask])) =
     Some (Some (JBool False)) \<and>
   map_option error
     (finalAction (run \<lparr>the_thunk = failingFetchUser, the_env = rejectingStore, arg = JNum 7,
                        requestId = ''R''\<rparr> [CreatorSettles, Microtask, Microtask, Microtask])) =
     Some (Some (JObj [(''message'', JStr ''no such user'')])) \<and>
   unwrap (run \<lparr>the_thunk = failingFetchUser, the_env = rejectingStore, arg = JNum 7,
                 requestId = ''R''\<rparr> [CreatorSettles, Microtask, Microtask, Microtask]) =
     Some (Inl (JStr ''reducer failed''))"
  by (simp add: engine_defs failingFetchUser_def rejectingStore_def fetchUser_def store_def
      miniSerializeError_def commonProperties_def unwrap_def)

text \<open>
  Two behaviours of \<^verbatim>\<open>unwrapResult\<close> that the statement above leaves out, since it
  tests \<open>meta.rejectedWithValue\<close> and the truthiness of \<open>error\<close> but never the type
  of the action: a fulfilled action whose meta, given to \<^verbatim>\<open>fulfillWithValue\<close>, has
  \<open>rejectedWithValue: true\<close> makes \<^verbatim>\<open>unwrap()\<close> reject with the payload; and a
  rejected action whose serialized error is the empty string makes \<^verbatim>\<open>unwrap()\<close>
  resolve (to the undefined payload).
\<close>

lemma unwrap_against_event_kind:
  "map_option type
     (finalAction (run \<lparr>the_thunk = markedFulfil, the_env = store, arg = JNum 7, requestId = ''R''\<rparr>
        [Microtask, Microtask, Microtask])) = Some ''fetchUser/fulfilled'' \<and>
   unwrap (run \<lparr>the_thunk = markedFulfil, the_env = store, arg = JNum 7, requestId = ''R''\<rparr>
        [Microtask, Microtask, Microtask]) = Some (Inl (JNum 1)) \<and>
   map_option type
     (finalAction (run \<lparr>the_thunk = messageSerializer, the_env = store, arg = JNum 7, requestId = ''R''\<rparr> [])) =
     Some ''fetchUser/rejected'' \<and>
   unwrap (run \<lparr>the_thunk = messageSerializer, the_env = store, arg = JNum 7, requestId = ''R''\<rparr> []) =
     Some (Inr JUndefined)"
  by (simp add: engine_defs markedFulfil_def messageSerializer_def fetchUser_def store_def
      unwrap_def unwrapResult_def)

section \<open>Aborting\<close>


lemma abortedPromise_aborts:
  "abortedPromise s = Some e \<Longrightarrow> abortedPromise (foldl (\<lambda>s r. abort c r s) s rs) = Some e"
  by (induction rs arbitrary: s) simp_all

lemma abortedPromise_kept:
  assumes "abortedPromise s = Some e"
  shows "abortedPromise (step c ev s) = Some e"
proof (cases ev)
  case (CallAbort r)
  then show ?thesis using assms by simp
next
  case ConditionSettles
  then show ?thesis using assms by (simp split: option.splits settlement.splits)
next
  case CreatorSettles
  then show ?thesis using assms by (simp split: option.splits settlement.splits)
next
  case Microtask
  have ac: "abortedPromise (after_condition c v t) = Some e" if "abortedPromise t = Some e" for v t
    using that abortedPromise_aborts [of _ e c]
    by (simp add: after_condition_def call_creator_def create_race_def Let_def
        split: option.splits ret.splits sum.splits)
  show ?thesis
  proof (cases "queue s")
    case Nil
    then show ?thesis using Microtask assms by simp
  next
    case (Cons j js)
    then show ?thesis using Microtask assms ac [of "s\<lparr>queue := js\<rparr>"]
      by (cases "(c, j, s\<lparr>queue := js\<rparr>)" rule: run_job.cases) auto
  qed
qed

lemma abort_decides_step:
  assumes wf: "wf_state s" and ad: "abort_decides c e s"
  shows "abort_decides c e (step c ev s)"
proof -
  have ap: "abortedPromise (step c ev s) = Some e"
    using ad abortedPromise_kept by (simp add: abort_decides_def)
  have ap0: "abortedPromise s = Some e" using ad by (simp add: abort_decides_def)
  show ?thesis
  proof (cases "phase s")
    case AwaitingCondition
    then show ?thesis using ad by (simp add: abort_decides_def)
  next
    case Finished
    then show ?thesis
      using finished_step [OF wf Finished, of c ev] ad ap by (simp add: abort_decides_def)
  next
    case Racing
    show ?thesis
    proof (cases ev)
      case (CallAbort r)
      then show ?thesis using ad Racing by (simp add: abort_decides_def)
    next
      case ConditionSettles
      then show ?thesis using ad Racing wf by (simp add: abort_decides_def wf_state_def)
    next
      case CreatorSettles
      then show ?thesis using ad Racing
        by (auto simp: abort_decides_def takeWhile_append1 split: option.splits settlement.splits)
    next
      case Microtask
      show ?thesis
      proof (cases "queue s")
        case Nil
        then show ?thesis using Microtask ad by simp
      next
        case (Cons j js)
        have nocond: "\<not> is_resume_condition j"
          using wf Racing Cons by (auto simp: wf_state_def)
        show ?thesis
        proof (cases "raceSettled s")
          case True
          have nofinal: "finalAction s = None"
            using wf Racing by (simp add: wf_state_def)
          then show ?thesis using True Microtask Cons ad Racing ap0 nocond
            by (cases "(c, j, s\<lparr>queue := js\<rparr>)" rule: run_job.cases)
               (auto simp: abort_decides_def split: sum.splits)
        next
          case False
          have nores: "\<not> is_resume_race j" "\<forall>x \<in> set js. \<not> is_resume_race x"
            using wf Racing False Cons by (auto simp: wf_state_def filter_empty_conv split: if_splits)
          have ab: "aborted_with j = None \<or> aborted_with j = Some e"
            using wf Cons ap0 by (auto simp: wf_state_def)
          show ?thesis
          proof (cases "j = RaceAborted e")
            case True
            then show ?thesis using Microtask Cons Racing False ap0 nores
              by (auto simp: abort_decides_def)
          next
            case ne: False
            then have tail: "RaceAborted e \<in> set js"
              "\<not> is_race_settled j"
              "\<not> list_ex is_race_settled (takeWhile (\<lambda>j. j \<noteq> RaceAborted e) js)"
              using ad Racing False Cons by (auto simp: abort_decides_def)
            show ?thesis using Microtask Cons Racing False ap0 nores nocond ab ne tail
              by (cases "(c, j, s\<lparr>queue := js\<rparr>)" rule: run_job.cases)
                 (auto simp: abort_decides_def takeWhile_append1)
          qed
        qed
      qed
    qed
  qed
qed

lemma abort_decides_steps:
  assumes "wf_state s" "abort_decides c e s"
  shows "wf_state (steps c evs s) \<and> abort_decides c e (steps c evs s)"
  by (rule steps_invariant [where P = "\<lambda>s. wf_state s \<and> abort_decides c e s"])
     (use assms wf_step abort_decides_step in auto)

text \<open>
  When the reaction to \<open>abortedPromise\<close> is ahead, the function finishes with the
  rejected action of the abort error (or, when \<^verbatim>\<open>rejected\<close> throws, with none),
  whatever else happens, once the queue has run.
\<close>

lemma abort_wins:
  assumes "wf_state s" "abort_decides c e s"
  shows "\<exists>n. finalAction (steps c (evs @ replicate n Microtask) s) = normally (catch_action c e)"
proof -
  let ?t = "steps c evs s"
  have t: "wf_state ?t" "abort_decides c e ?t"
    using abort_decides_steps [OF assms] by auto
  have "\<exists>n. phase (steps c (replicate n Microtask) ?t) = Finished"
  proof (cases "phase ?t")
    case AwaitingCondition
    then show ?thesis using t by (simp add: abort_decides_def)
  next
    case Finished
    then have "phase (steps c (replicate 0 Microtask) ?t) = Finished" by simp
    then show ?thesis by blast
  next
    case Racing
    have "can_progress ?t"
      using t(2) Racing
      by (cases "raceSettled ?t")
         (auto simp: abort_decides_def can_progress_def list_ex_iff
               intro!: bexI [of _ "RaceAborted e"])
    then show ?thesis using can_progress_finishes [OF t(1) Racing] by blast
  qed
  then obtain n where n: "phase (steps c (replicate n Microtask) ?t) = Finished" by blast
  have "abort_decides c e (steps c (replicate n Microtask) ?t)"
    using abort_decides_steps [OF t] by auto
  then have "finalAction (steps c (evs @ replicate n Microtask) s) = normally (catch_action c e)"
    using n by (simp add: abort_decides_def)
  then show ?thesis by blast
qed

lemma abort_in_race:
  assumes "wf_state s" "racing_undecided s" "hasAbortController (the_env c)"
  shows "abort_decides c (abortError r) (abort c r s)"
proof -
  have st: "started s" "raceCreated s" using assms by (auto simp: racing_undecided_def wf_state_def)
  have none: "\<forall>j \<in> set (queue s). j \<noteq> RaceAborted (abortError r)"
    using assms by (auto simp: racing_undecided_def wf_state_def)
  then have tw: "takeWhile (\<lambda>j. j \<noteq> RaceAborted (abortError r))
                   (queue s @ [RaceAborted (abortError r)]) = queue s"
    by (simp add: takeWhile_append2)
  show ?thesis
    using assms st tw by (simp add: abort_decides_def racing_undecided_def)
qed

lemma abort_in_creator:
  assumes "gate_passes c" "pendingAction c = Inr pa" "dispatch (the_env c) pa = None"
    "hasAbortController (the_env c)" "aborts (creatorRun c) = r # rs"
    "\<forall>x. returned (creatorRun c) \<noteq> Throws x"
  shows "abort_decides c (abortError r) (entry c)"
proof -
  let ?s1 = "initial\<lparr>started := True, dispatched := [pa], creatorCalls := Suc 0\<rparr>"
  let ?s2 = "foldl (\<lambda>s r. abort c r s) (abort c r ?s1) rs"
  have ap: "abortedPromise ?s2 = Some (abortError r)"
    using assms(4) by (intro abortedPromise_aborts) simp
  have q: "queue ?s2 = []" by simp
  have e: "entry c = (case returned (creatorRun c) of
              Throws err \<Rightarrow> catch c err ?s2
            | Returns v \<Rightarrow> create_race (enqueue (ThenCallback (Inr v)) ?s2)
            | ReturnsPromise p \<Rightarrow> create_race (?s2\<lparr>creatorPromise := Some p\<rparr>))"
    using assms(5) by (simp add: entry_creator [OF assms(1,2,3)] call_creator_def Let_def)
  show ?thesis
    using assms(6) ap q
    by (cases "returned (creatorRun c)")
       (simp_all add: e abort_decides_def create_race_def Let_def)
qed

lemma miniSerializeError_abortError [simp]:
  "miniSerializeError (abortError r) = abortError r"
  by (simp add: miniSerializeError_def commonProperties_def get_def abortError_def)

lemma abortError_object: "\<forall>p m. abortError r \<noteq> RejectWithValue p m"
  by (simp add: abortError_def)

lemma abort_action:
  "type (caught c (abortError r) se) = typePrefix (the_thunk c) @ ''/rejected''"
  "props (meta (caught c (abortError r) se)) ''aborted'' = Some (JBool True)"
  "error (caught c (abortError r) se) = Some se"
  "default_serializer c \<Longrightarrow>
     serialized (options (the_thunk c)) (abortError r) = Inr (abortError r)"
  "props (abortError r) ''message'' =
     Some (JStr (case r of Some x \<Rightarrow> if x \<noteq> [] then x else ''Aborted'' | None \<Rightarrow> ''Aborted''))"
proof -
  have obj: "\<exists>kvs. abortError r = JObj kvs \<and> map_of kvs ''name'' = Some (JStr ''AbortError'')"
    by (simp add: abortError_def)
  then obtain kvs where kvs: "abortError r = JObj kvs"
    "map_of kvs ''name'' = Some (JStr ''AbortError'')" by blast
  show "type (caught c (abortError r) se) = typePrefix (the_thunk c) @ ''/rejected''"
    by (simp add: caught_def)
  show "props (meta (caught c (abortError r) se)) ''aborted'' = Some (JBool True)"
    by (simp add: caught_def map_of_literal) (simp add: kvs get_def)
  show "error (caught c (abortError r) se) = Some se"
    by (simp add: caught_def)
  show "serialized (options (the_thunk c)) (abortError r) = Inr (abortError r)"
    if "default_serializer c"
    using serialized_by_default [OF that, of kvs] miniSerializeError_abortError [of r]
    by (simp only: kvs(1) [symmetric])
  show "props (abortError r) ''message'' =
     Some (JStr (case r of Some x \<Rightarrow> if x \<noteq> [] then x else ''Aborted'' | None \<Rightarrow> ''Aborted''))"
    by (simp add: abortError_def)
qed

lemma abort_final:
  assumes "serialized (options (the_thunk c)) (abortError r) = Inr se"
  shows "normally (catch_action c (abortError r)) = Some (caught c (abortError r) se)"
  using catch_action_caught(1) [OF abortError_object, of c r "caught c (abortError r) se"] assms
  by simp

text \<open>
  C3, as amended. A call of \<open>abort\<close> before the invocation has started changes nothing:
  the run goes on as if the call had not been made. On a platform with
  \<^verbatim>\<open>AbortController\<close>, and when \<open>serializeError\<close> (if there is one) returns
  \<open>se\<close> for the abort error: a call of \<open>abort(reason)\<close> while the race is undecided
  (the invocation has started, no earlier abort, and the payload creator's settlement has
  not reached the race), or a first call made by the payload creator itself before it
  returns without throwing, makes the final action, whatever the payload creator does and
  whatever else happens, the rejected action of the abort error: its meta has
  \<open>aborted = true\<close> and its error is \<open>se\<close>, which with the default serializer is the
  abort error, whose message is the reason, or \<^verbatim>\<open>'Aborted'\<close> when the reason is omitted
  or empty.
\<close>

theorem abort_before_and_after_arming:
  "(\<not> started (run c evs1) \<longrightarrow>
      run c (evs1 @ CallAbort reason # evs2) = run c (evs1 @ evs2)) \<and>
   (hasAbortController (the_env c) \<and> racing_undecided (run c evs1) \<and>
    serialized (options (the_thunk c)) (abortError reason) = Inr se \<longrightarrow>
      started (run c evs1) \<and>
      (\<exists>n. finalAction (run c (evs1 @ CallAbort reason # evs2 @ replicate n Microtask)) =
             Some (caught c (abortError reason) se))) \<and>
   (hasAbortController (the_env c) \<and> gate_passes c \<and>
    pendingAction c = Inr pa \<and> dispatch (the_env c) pa = None \<and>
    aborts (creatorRun c) = reason # rs \<and> (\<forall>x. returned (creatorRun c) \<noteq> Throws x) \<and>
    serialized (options (the_thunk c)) (abortError reason) = Inr se \<longrightarrow>
      (\<exists>n. finalAction (run c (evs1 @ [ConditionSettles, Microtask] @ evs2
                                @ replicate n Microtask)) =
             Some (caught c (abortError reason) se))) \<and>
   type (caught c (abortError reason) se) = typePrefix (the_thunk c) @ ''/rejected'' \<and>
   props (meta (caught c (abortError reason) se)) ''aborted'' = Some (JBool True) \<and>
   error (caught c (abortError reason) se) = Some se \<and>
   (default_serializer c \<longrightarrow>
      serialized (options (the_thunk c)) (abortError reason) = Inr (abortError reason)) \<and>
   props (abortError reason) ''message'' =
     Some (JStr (case reason of
                   Some r \<Rightarrow> if r \<noteq> [] then r else ''Aborted''
                 | None \<Rightarrow> ''Aborted''))"
proof (intro conjI impI)
  assume "\<not> started (run c evs1)"
  then have "abort c reason (run c evs1) = run c evs1" by (simp add: abort_def)
  then show "run c (evs1 @ CallAbort reason # evs2) = run c (evs1 @ evs2)"
    by (simp add: run_append)
next
  assume a: "hasAbortController (the_env c) \<and> racing_undecided (run c evs1) \<and>
    serialized (options (the_thunk c)) (abortError reason) = Inr se"
  show "started (run c evs1)"
    using a wf_run [of c evs1] by (auto simp: racing_undecided_def wf_state_def)
  have wf: "wf_state (abort c reason (run c evs1))" using wf_abort wf_run by blast
  have ad: "abort_decides c (abortError reason) (abort c reason (run c evs1))"
    using abort_in_race [OF wf_run] a by blast
  from abort_wins [OF wf ad, of evs2] obtain n where
    "finalAction (steps c (evs2 @ replicate n Microtask) (abort c reason (run c evs1))) =
       normally (catch_action c (abortError reason))" by blast
  then have "finalAction (run c (evs1 @ CallAbort reason # evs2 @ replicate n Microtask)) =
       Some (caught c (abortError reason) se)"
    using a by (simp add: run_append abort_final)
  then show "\<exists>n. finalAction (run c (evs1 @ CallAbort reason # evs2 @ replicate n Microtask)) =
       Some (caught c (abortError reason) se)" by blast
next
  assume a: "hasAbortController (the_env c) \<and> gate_passes c \<and>
    pendingAction c = Inr pa \<and> dispatch (the_env c) pa = None \<and>
    aborts (creatorRun c) = reason # rs \<and> (\<forall>x. returned (creatorRun c) \<noteq> Throws x) \<and>
    serialized (options (the_thunk c)) (abortError reason) = Inr se"
  then have ad: "abort_decides c (abortError reason) (entry c)"
    using abort_in_creator [of c pa reason rs] by blast
  have "conditionResult c \<noteq> ReturnsPromise Never"
    using a by (auto simp: gate_passes_def gate_value_def)
  from gate_completion [OF this, of evs1] obtain evs' where
    run: "run c (evs1 @ [ConditionSettles, Microtask]) = steps c evs' (entry c)" by blast
  from abort_wins [OF wf_entry ad, of "evs' @ evs2"] obtain n where
    n: "finalAction (steps c ((evs' @ evs2) @ replicate n Microtask) (entry c)) =
       normally (catch_action c (abortError reason))" by blast
  have "run c ((evs1 @ [ConditionSettles, Microtask]) @ (evs2 @ replicate n Microtask)) =
          steps c (evs2 @ replicate n Microtask) (run c (evs1 @ [ConditionSettles, Microtask]))"
    by (rule run_append)
  also have "\<dots> = steps c (evs2 @ replicate n Microtask) (steps c evs' (entry c))"
    by (simp only: run)
  also have "\<dots> = steps c ((evs' @ evs2) @ replicate n Microtask) (entry c)"
    by (simp only: steps_simps(3) append_assoc)
  finally have "finalAction (run c (evs1 @ [ConditionSettles, Microtask] @ evs2
                                @ replicate n Microtask)) =
             Some (caught c (abortError reason) se)"
    using n a by (simp add: abort_final)
  then show "\<exists>n. finalAction (run c (evs1 @ [ConditionSettles, Microtask] @ evs2
                                @ replicate n Microtask)) =
             Some (caught c (abortError reason) se)" by blast
qed (simp_all add: abort_action)

theorem abort_before_and_after_arming_witness:
  "\<not> started (run \<lparr>the_thunk = checkedFetchUser, the_env = store, arg = JNum 7, requestId = ''R''\<rparr> []) \<and>
   map_option type
     (finalAction
        (run \<lparr>the_thunk = checkedFetchUser, the_env = store, arg = JNum 7, requestId = ''R''\<rparr>
           ([] @ CallAbort (Some ''stop'') #
              [ConditionSettles, Microtask, CreatorSettles, Microtask, Microtask, Microtask]))) =
     Some ''fetchUser/fulfilled'' \<and>
   creatorCalls
     (run \<lparr>the_thunk = checkedFetchUser, the_env = store, arg = JNum 7, requestId = ''R''\<rparr>
        ([] @ CallAbort (Some ''stop'') #
           [ConditionSettles, Microtask, CreatorSettles, Microtask, Microtask, Microtask])) = 1 \<and>
   hasAbortController (the_env fetchUser7) \<and> racing_undecided (run fetchUser7 []) \<and>
   serialized (options (the_thunk fetchUser7)) (abortError (Some ''stop'')) =
     Inr (JObj [(''name'', JStr ''AbortError''), (''message'', JStr ''stop'')]) \<and>
   (\<exists>n. map_option type
          (finalAction (run fetchUser7 ([] @ CallAbort (Some ''stop'') # [CreatorSettles]
                                          @ replicate n Microtask))) =
        Some ''fetchUser/rejected'') \<and>
   default_serializer fetchUser7 \<and>
   aborts (creatorRun \<lparr>the_thunk = selfAborting, the_env = store, arg = JNum 7, requestId = ''R''\<rparr>) =
     [Some ''changed my mind''] \<and>
   (\<exists>n. map_option type
          (finalAction (run \<lparr>the_thunk = selfAborting, the_env = store, arg = JNum 7, requestId = ''R''\<rparr>
                          ([] @ [ConditionSettles, Microtask] @ [CreatorSettles]
                              @ replicate n Microtask))) =
        Some ''fetchUser/rejected'')"
proof -
  let ?g = "\<lparr>the_thunk = checkedFetchUser, the_env = store, arg = JNum 7, requestId = ''R''\<rparr>"
  let ?c = "\<lparr>the_thunk = selfAborting, the_env = store, arg = JNum 7, requestId = ''R''\<rparr>"
  let ?rest = "[ConditionSettles, Microtask, CreatorSettles, Microtask, Microtask, Microtask]"
  let ?stop = "JObj [(''name'', JStr ''AbortError''), (''message'', JStr ''stop'')]"
  have g: "\<not> started (run ?g [])"
    by (simp add: run_def actionCreator_def conditionResult_def checkedFetchUser_def fetchUser_def)
  have same: "run ?g ([] @ CallAbort (Some ''stop'') # ?rest) = run ?g ([] @ ?rest)"
    using g abort_before_and_after_arming [of ?g "[]" "Some ''stop''" ?rest] by blast
  have natural: "map_option type (finalAction (run ?g ([] @ ?rest))) = Some ''fetchUser/fulfilled''"
    "creatorCalls (run ?g ([] @ ?rest)) = 1"
    by (simp_all add: engine_defs checkedFetchUser_def fetchUser_def store_def)
  have zero: "map_option type (finalAction (run ?g ([] @ CallAbort (Some ''stop'') # ?rest))) =
      Some ''fetchUser/fulfilled''"
    "creatorCalls (run ?g ([] @ CallAbort (Some ''stop'') # ?rest)) = 1"
    using natural by (simp_all only: same)
  have f: "hasAbortController (the_env fetchUser7)" "racing_undecided (run fetchUser7 [])"
    by (simp_all add: racing_undecided_def engine_defs example_defs)
  have d: "default_serializer fetchUser7"
    by (simp add: default_serializer_def example_defs)
  have se: "serialized (options (the_thunk fetchUser7)) (abortError (Some ''stop'')) = Inr ?stop"
    using d abort_before_and_after_arming [of fetchUser7 "[]" "Some ''stop''" "[]" ?stop]
    by (simp add: abortError_def)
  have t: "typePrefix (the_thunk fetchUser7) = ''fetchUser''" by (simp add: example_defs)
  have ex: "\<exists>n. finalAction (run fetchUser7 ([] @ CallAbort (Some ''stop'') # [CreatorSettles]
                                    @ replicate n Microtask)) =
       Some (caught fetchUser7 (abortError (Some ''stop'')) ?stop)"
    and ty: "type (caught fetchUser7 (abortError (Some ''stop'')) ?stop) =
       typePrefix (the_thunk fetchUser7) @ ''/rejected''"
    using abort_before_and_after_arming
      [of fetchUser7 "[]" "Some ''stop''" "[CreatorSettles]" ?stop] f se
    by blast+
  have one: "\<exists>n. map_option type
          (finalAction (run fetchUser7 ([] @ CallAbort (Some ''stop'') # [CreatorSettles]
                                          @ replicate n Microtask))) =
        Some ''fetchUser/rejected''"
  proof -
    from ex obtain n where
      "finalAction (run fetchUser7 ([] @ CallAbort (Some ''stop'') # [CreatorSettles]
                                    @ replicate n Microtask)) =
       Some (caught fetchUser7 (abortError (Some ''stop'')) ?stop)" by blast
    then have "map_option type
          (finalAction (run fetchUser7 ([] @ CallAbort (Some ''stop'') # [CreatorSettles]
                                          @ replicate n Microtask))) =
        Some ''fetchUser/rejected''"
      using ty t by (simp only: option.map append.simps)
    then show ?thesis by blast
  qed
  let ?mind = "JObj [(''name'', JStr ''AbortError''), (''message'', JStr ''changed my mind'')]"
  let ?pa = "pending ''fetchUser'' (''R'', JNum 7, JUndefined)"
  have h: "hasAbortController (the_env ?c)" "gate_passes ?c"
    "pendingAction ?c = Inr ?pa" "dispatch (the_env ?c) ?pa = None"
    "aborts (creatorRun ?c) = Some ''changed my mind'' # []"
    "\<forall>x. returned (creatorRun ?c) \<noteq> Throws x"
    "serialized (options (the_thunk ?c)) (abortError (Some ''changed my mind'')) = Inr ?mind"
    by (simp_all add: gate_passes_def gate_value_def conditionResult_def creatorRun_def
        pendingAction_def pendingMeta_def serialized_def abortError_def
        miniSerializeError_def commonProperties_def get_def
        selfAborting_def fetchUser_def store_def)
  have t': "typePrefix (the_thunk ?c) = ''fetchUser''"
    by (simp add: selfAborting_def fetchUser_def)
  have ex2: "\<exists>m. finalAction (run ?c ([] @ [ConditionSettles, Microtask] @ [CreatorSettles]
                                   @ replicate m Microtask)) =
       Some (caught ?c (abortError (Some ''changed my mind'')) ?mind)"
    and ty2: "type (caught ?c (abortError (Some ''changed my mind'')) ?mind) =
       typePrefix (the_thunk ?c) @ ''/rejected''"
    using abort_before_and_after_arming
      [of ?c "[]" "Some ''changed my mind''" "[CreatorSettles]" ?mind ?pa "[]"] h
    by blast+
  have two: "\<exists>n. map_option type
          (finalAction (run ?c ([] @ [ConditionSettles, Microtask] @ [CreatorSettles]
                                 @ replicate n Microtask))) =
        Some ''fetchUser/rejected''"
  proof -
    from ex2 obtain m where
      "finalAction (run ?c ([] @ [ConditionSettles, Microtask] @ [CreatorSettles]
                             @ replicate m Microtask)) =
         Some (caught ?c (abortError (Some ''changed my mind'')) ?mind)" by blast
    then have "map_option type
          (finalAction (run ?c ([] @ [ConditionSettles, Microtask] @ [CreatorSettles]
                                 @ replicate m Microtask))) =
        Some ''fetchUser/rejected''"
      using ty2 t' by (simp only: option.map append.simps)
    then show ?thesis by blast
  qed
  show ?thesis using g zero f se one d h(5) two by blast
qed

text \<open>
  The claim as stated fails in five ways. An abort after arming, while the promise is
  still pending but after the callback of \<^verbatim>\<open>.then\<close> has run, loses: the final action
  is fulfilled. An empty reason gives the default text. Without
  \<^verbatim>\<open>AbortController\<close> the call has no effect. With a \<open>serializeError\<close> option the
  error is what that function returns; and when that function throws, there is no final
  action and the promise is rejected.
\<close>

theorem abort_after_arming_in_vain:
  "started (run fetchUser7 [CreatorSettles, Microtask]) \<and>
   promise (run fetchUser7 [CreatorSettles, Microtask]) = None \<and>
   map_option type
     (finalAction (run fetchUser7 [CreatorSettles, Microtask, CallAbort (Some ''stop''),
                                   Microtask, Microtask, Microtask])) =
     Some ''fetchUser/fulfilled'' \<and>
   map_option error
     (finalAction (run fetchUser7 [CallAbort (Some []), Microtask, Microtask])) =
     Some (Some (JObj [(''name'', JStr ''AbortError''), (''message'', JStr ''Aborted'')])) \<and>
   map_option type
     (finalAction (run \<lparr>the_thunk = fetchUser, the_env = oldPlatform, arg = JNum 7, requestId = ''R''\<rparr>
        [CallAbort (Some ''stop''), CreatorSettles, Microtask, Microtask, Microtask])) =
     Some ''fetchUser/fulfilled'' \<and>
   map_option error
     (finalAction (run \<lparr>the_thunk = serializedFetchUser, the_env = store, arg = JNum 7, requestId = ''R''\<rparr>
        [CallAbort (Some ''stop''), Microtask, Microtask])) =
     Some (Some (JStr ''failed'')) \<and>
   finalAction (run \<lparr>the_thunk = unserializableFetchUser, the_env = store, arg = JNum 7,
                      requestId = ''R''\<rparr> [CallAbort (Some ''stop''), Microtask, Microtask]) = None \<and>
   promise (run \<lparr>the_thunk = unserializableFetchUser, the_env = store, arg = JNum 7,
                  requestId = ''R''\<rparr> [CallAbort (Some ''stop''), Microtask, Microtask]) =
     Some (Inl (JStr ''cannot serialize''))"
  by (simp add: engine_defs example_defs oldPlatform_def serializedFetchUser_def
      unserializableFetchUser_def miniSerializeError_def commonProperties_def)

lemma creator_settles_undecided:
  "racing_undecided s \<Longrightarrow> racing_undecided (step c CreatorSettles s)"
  by (auto simp: racing_undecided_def split: option.splits settlement.splits)

text \<open>
  C8, as amended. On a platform with \<^verbatim>\<open>AbortController\<close>, and when
  \<open>serializeError\<close> (if there is one) returns \<open>se\<close> for the abort error: when the
  payload creator's promise settles and \<open>abort\<close> is called one right after the other, in
  either order, while the race is undecided, the final action is the rejected action of
  the abort error; and so it is when the payload creator itself calls \<open>abort\<close> before it
  returns, so that both are ready when the race is created. What decides is the order in
  which the two reach the race: \<open>abort\<close> wins as long as it fires before the callback of
  \<^verbatim>\<open>.then\<close> has run.
\<close>

theorem abort_takes_precedence:
  "(hasAbortController (the_env c) \<and> racing_undecided (run c evs1) \<and>
    serialized (options (the_thunk c)) (abortError reason) = Inr se \<longrightarrow>
      (\<exists>n. finalAction (run c (evs1 @ [CreatorSettles, CallAbort reason] @ evs2
                                @ replicate n Microtask)) =
             Some (caught c (abortError reason) se)) \<and>
      (\<exists>n. finalAction (run c (evs1 @ [CallAbort reason, CreatorSettles] @ evs2
                                @ replicate n Microtask)) =
             Some (caught c (abortError reason) se))) \<and>
   (hasAbortController (the_env c) \<and> gate_passes c \<and>
    pendingAction c = Inr pa \<and> dispatch (the_env c) pa = None \<and>
    aborts (creatorRun c) = reason # rs \<and> (\<forall>x. returned (creatorRun c) \<noteq> Throws x) \<and>
    serialized (options (the_thunk c)) (abortError reason) = Inr se \<longrightarrow>
      (\<exists>n. finalAction (run c (evs1 @ [ConditionSettles, Microtask] @ evs2
                                @ replicate n Microtask)) =
             Some (caught c (abortError reason) se))) \<and>
   type (caught c (abortError reason) se) = typePrefix (the_thunk c) @ ''/rejected'' \<and>
   props (meta (caught c (abortError reason) se)) ''aborted'' = Some (JBool True)"
proof (intro conjI impI)
  assume a: "hasAbortController (the_env c) \<and> racing_undecided (run c evs1) \<and>
    serialized (options (the_thunk c)) (abortError reason) = Inr se"
  let ?s = "run c evs1"
  have wf1: "wf_state (step c CreatorSettles ?s)" using wf_step wf_run by blast
  have ad1: "abort_decides c (abortError reason) (abort c reason (step c CreatorSettles ?s))"
    using abort_in_race [OF wf1 creator_settles_undecided] a by blast
  from abort_wins [OF wf_abort [OF wf1] ad1, of evs2] obtain n where
    "finalAction (steps c (evs2 @ replicate n Microtask)
       (abort c reason (step c CreatorSettles ?s))) = normally (catch_action c (abortError reason))"
    by blast
  then have "finalAction (run c (evs1 @ [CreatorSettles, CallAbort reason] @ evs2
                                @ replicate n Microtask)) =
             Some (caught c (abortError reason) se)"
    using a by (simp add: run_append abort_final)
  then show "\<exists>n. finalAction (run c (evs1 @ [CreatorSettles, CallAbort reason] @ evs2
                                @ replicate n Microtask)) =
             Some (caught c (abortError reason) se)" by blast
  have wf2: "wf_state (abort c reason ?s)" using wf_abort wf_run by blast
  have ad2: "abort_decides c (abortError reason) (abort c reason ?s)"
    using abort_in_race [OF wf_run] a by blast
  from abort_wins [OF wf2 ad2, of "CreatorSettles # evs2"] obtain m where
    "finalAction (steps c ((CreatorSettles # evs2) @ replicate m Microtask) (abort c reason ?s)) =
       normally (catch_action c (abortError reason))" by blast
  then have "finalAction (run c (evs1 @ [CallAbort reason, CreatorSettles] @ evs2
                                @ replicate m Microtask)) =
             Some (caught c (abortError reason) se)"
    using a by (simp add: run_append abort_final)
  then show "\<exists>n. finalAction (run c (evs1 @ [CallAbort reason, CreatorSettles] @ evs2
                                @ replicate n Microtask)) =
             Some (caught c (abortError reason) se)" by blast
next
  assume a: "hasAbortController (the_env c) \<and> gate_passes c \<and>
    pendingAction c = Inr pa \<and> dispatch (the_env c) pa = None \<and>
    aborts (creatorRun c) = reason # rs \<and> (\<forall>x. returned (creatorRun c) \<noteq> Throws x) \<and>
    serialized (options (the_thunk c)) (abortError reason) = Inr se"
  then have ad: "abort_decides c (abortError reason) (entry c)"
    using abort_in_creator [of c pa reason rs] by blast
  have "conditionResult c \<noteq> ReturnsPromise Never"
    using a by (auto simp: gate_passes_def gate_value_def)
  from gate_completion [OF this, of evs1] obtain evs' where
    run: "run c (evs1 @ [ConditionSettles, Microtask]) = steps c evs' (entry c)" by blast
  from abort_wins [OF wf_entry ad, of "evs' @ evs2"] obtain n where
    n: "finalAction (steps c ((evs' @ evs2) @ replicate n Microtask) (entry c)) =
       normally (catch_action c (abortError reason))" by blast
  have "run c ((evs1 @ [ConditionSettles, Microtask]) @ (evs2 @ replicate n Microtask)) =
          steps c (evs2 @ replicate n Microtask) (run c (evs1 @ [ConditionSettles, Microtask]))"
    by (rule run_append)
  also have "\<dots> = steps c (evs2 @ replicate n Microtask) (steps c evs' (entry c))"
    by (simp only: run)
  also have "\<dots> = steps c ((evs' @ evs2) @ replicate n Microtask) (entry c)"
    by (simp only: steps_simps(3) append_assoc)
  finally have "finalAction (run c (evs1 @ [ConditionSettles, Microtask] @ evs2
                                @ replicate n Microtask)) =
             Some (caught c (abortError reason) se)"
    using n a by (simp add: abort_final)
  then show "\<exists>n. finalAction (run c (evs1 @ [ConditionSettles, Microtask] @ evs2
                                @ replicate n Microtask)) =
             Some (caught c (abortError reason) se)" by blast
qed (simp_all add: abort_action)

theorem abort_takes_precedence_witness:
  "hasAbortController (the_env fetchUser7) \<and> racing_undecided (run fetchUser7 []) \<and>
   serialized (options (the_thunk fetchUser7)) (abortError None) =
     Inr (JObj [(''name'', JStr ''AbortError''), (''message'', JStr ''Aborted'')]) \<and>
   (\<exists>n. map_option type
          (finalAction (run fetchUser7 ([] @ [CreatorSettles, CallAbort None] @ []
                                          @ replicate n Microtask))) =
        Some ''fetchUser/rejected'') \<and>
   gate_passes \<lparr>the_thunk = selfAborting, the_env = store, arg = JNum 7, requestId = ''R''\<rparr> \<and>
   (\<exists>n. map_option type
          (finalAction (run \<lparr>the_thunk = selfAborting, the_env = store, arg = JNum 7, requestId = ''R''\<rparr>
                          ([] @ [ConditionSettles, Microtask] @ [] @ replicate n Microtask))) =
        Some ''fetchUser/rejected'')"
proof -
  let ?c = "\<lparr>the_thunk = selfAborting, the_env = store, arg = JNum 7, requestId = ''R''\<rparr>"
  let ?ab = "JObj [(''name'', JStr ''AbortError''), (''message'', JStr ''Aborted'')]"
  have f: "hasAbortController (the_env fetchUser7)" "racing_undecided (run fetchUser7 [])"
    "serialized (options (the_thunk fetchUser7)) (abortError None) = Inr ?ab"
    by (simp_all add: racing_undecided_def engine_defs example_defs
        miniSerializeError_def commonProperties_def)
  have t: "typePrefix (the_thunk fetchUser7) = ''fetchUser''" by (simp add: example_defs)
  have ex1: "\<exists>n. finalAction (run fetchUser7 ([] @ [CreatorSettles, CallAbort None] @ []
                                    @ replicate n Microtask)) =
       Some (caught fetchUser7 (abortError None) ?ab)"
    and ty1: "type (caught fetchUser7 (abortError None) ?ab) =
       typePrefix (the_thunk fetchUser7) @ ''/rejected''"
    using abort_takes_precedence [of fetchUser7 "[]" None ?ab "[]"] f by blast+
  have one: "\<exists>n. map_option type
          (finalAction (run fetchUser7 ([] @ [CreatorSettles, CallAbort None] @ []
                                          @ replicate n Microtask))) =
        Some ''fetchUser/rejected''"
  proof -
    from ex1 obtain n where
      "finalAction (run fetchUser7 ([] @ [CreatorSettles, CallAbort None] @ []
                                    @ replicate n Microtask)) =
       Some (caught fetchUser7 (abortError None) ?ab)" by blast
    then have "map_option type
          (finalAction (run fetchUser7 ([] @ [CreatorSettles, CallAbort None] @ []
                                          @ replicate n Microtask))) =
        Some ''fetchUser/rejected''"
      using ty1 t by (simp only: option.map append.simps)
    then show ?thesis by blast
  qed
  let ?mind = "JObj [(''name'', JStr ''AbortError''), (''message'', JStr ''changed my mind'')]"
  let ?pa = "pending ''fetchUser'' (''R'', JNum 7, JUndefined)"
  have h: "hasAbortController (the_env ?c)" "gate_passes ?c"
    "pendingAction ?c = Inr ?pa" "dispatch (the_env ?c) ?pa = None"
    "aborts (creatorRun ?c) = Some ''changed my mind'' # []"
    "\<forall>x. returned (creatorRun ?c) \<noteq> Throws x"
    "serialized (options (the_thunk ?c)) (abortError (Some ''changed my mind'')) = Inr ?mind"
    by (simp_all add: gate_passes_def gate_value_def conditionResult_def creatorRun_def
        pendingAction_def pendingMeta_def serialized_def abortError_def
        miniSerializeError_def commonProperties_def get_def
        selfAborting_def fetchUser_def store_def)
  have t': "typePrefix (the_thunk ?c) = ''fetchUser''"
    by (simp add: selfAborting_def fetchUser_def)
  have ex: "\<exists>m. finalAction (run ?c ([] @ [ConditionSettles, Microtask] @ [] @ replicate m Microtask)) =
       Some (caught ?c (abortError (Some ''changed my mind'')) ?mind)"
    and ty: "type (caught ?c (abortError (Some ''changed my mind'')) ?mind) =
       typePrefix (the_thunk ?c) @ ''/rejected''"
    using abort_takes_precedence [of ?c "[]" "Some ''changed my mind''" ?mind "[]" ?pa "[]"] h
    by blast+
  have two: "\<exists>n. map_option type
          (finalAction (run ?c ([] @ [ConditionSettles, Microtask] @ [] @ replicate n Microtask))) =
        Some ''fetchUser/rejected''"
  proof -
    from ex obtain m where
      "finalAction (run ?c ([] @ [ConditionSettles, Microtask] @ [] @ replicate m Microtask)) =
         Some (caught ?c (abortError (Some ''changed my mind'')) ?mind)" by blast
    then have "map_option type
          (finalAction (run ?c ([] @ [ConditionSettles, Microtask] @ [] @ replicate m Microtask))) =
        Some ''fetchUser/rejected''"
      using ty t' by (simp only: option.map append.simps)
    then show ?thesis by blast
  qed
  show ?thesis using f one h(2) two by blast
qed

text \<open>
  The claim as stated fails: the payload creator's promise settles, the callback of
  \<^verbatim>\<open>.then\<close> runs, and then \<open>abort\<close> is called. Both reactions are queued, the race is
  not settled yet, and the one queued first wins: the final action is fulfilled.
\<close>

theorem both_ready_operation_wins:
  "abortedPromise (run fetchUser7 [CreatorSettles, Microtask, CallAbort None]) =
     Some (abortError None) \<and>
   queue (run fetchUser7 [CreatorSettles, Microtask, CallAbort None]) =
     [RaceSettled (Inr (fulfilled ''fetchUser'' (JObj [(''id'', JNum 7)], ''R'', JNum 7, JUndefined))),
      RaceAborted (abortError None)] \<and>
   \<not> raceSettled (run fetchUser7 [CreatorSettles, Microtask, CallAbort None]) \<and>
   map_option type
     (finalAction (run fetchUser7 [CreatorSettles, Microtask, CallAbort None,
                                   Microtask, Microtask, Microtask])) =
     Some ''fetchUser/fulfilled''"
  by (simp add: engine_defs example_defs)

end
